theory Spec2Isabelle
  imports Main
begin

section \<open>Values\<close>

text \<open>
  The JavaScript values that the runtime stores in reactive fields, passes as attribute
  values and uses as keys. \<open>Fn\<close> is a function value, compared by identity;
  \<open>Builtin name\<close> is the member \<open>name\<close> that every ordinary object inherits from
  \<open>Object.prototype\<close> (an object, so truthy).
\<close>

datatype jsval = Undefined | Null | Bool bool | Num int | Str string | Fn nat | Builtin string

fun truthy :: "jsval \<Rightarrow> bool" where
  "truthy Undefined = False"
| "truthy Null = False"
| "truthy (Bool b) = b"
| "truthy (Num n) = (n \<noteq> 0)"
| "truthy (Str s) = (s \<noteq> [])"
| "truthy (Fn f) = True"
| "truthy (Builtin name) = True"

section \<open>The reactive system (reactivity/index.js)\<close>

text \<open>
  A task body \<open>fn\<close> is user code. It is represented by the operations it performs on
  reactive proxies: a tracked read \<open>proxy.k\<close>, a write \<open>proxy.k = v\<close>, a \<open>throw\<close>,
  and a conditional \<open>if (proxy.k === v) { ... }\<close>. Targets and tasks are identified by
  numbers; the table \<open>P\<close> gives the body of each task.
\<close>

datatype stmt =
    Read nat string
  | Write nat string jsval
  | Throw
  | IfEq nat string jsval "stmt list"

datatype outcome = Normal | Threw

text \<open>
  What happened, in order: \<open>Wrote t k v\<close> is the underlying write \<open>Reflect.set\<close>,
  \<open>Started e\<close> the start of the body of task \<open>e\<close>.
\<close>

datatype event = Wrote nat string jsval | Started nat

text \<open>
  The module state: the underlying objects (\<open>store\<close>), \<open>targetMap\<close>
  (target \<open>\<rightarrow>\<close> key \<open>\<rightarrow>\<close> insertion-ordered set of tasks) and the slot \<open>activeEffect\<close>.
  \<open>runs\<close>, \<open>lastReads\<close> and \<open>events\<close> are observations that the code does not have:
  how often each task body was started, which fields its latest execution read, and
  the sequence of writes and task starts.
\<close>

record rstate =
  store :: "nat \<times> string \<Rightarrow> jsval"
  targetMap :: "nat \<Rightarrow> (string \<Rightarrow> nat list option) option"
  activeEffect :: "nat option"
  runs :: "nat \<Rightarrow> nat"
  lastReads :: "nat \<Rightarrow> (nat \<times> string) list"
  events :: "event list"

definition set_add :: "nat \<Rightarrow> nat list \<Rightarrow> nat list" where
  "set_add e ds = (if e \<in> set ds then ds else ds @ [e])"

definition track :: "nat \<Rightarrow> string \<Rightarrow> rstate \<Rightarrow> rstate" where
  "track target key s =
     (case activeEffect s of
        None \<Rightarrow> s
      | Some e \<Rightarrow>
          let depsMap = (case targetMap s target of None \<Rightarrow> Map.empty | Some m \<Rightarrow> m);
              deps = (case depsMap key of None \<Rightarrow> [] | Some ds \<Rightarrow> ds)
          in s\<lparr>targetMap := (targetMap s)(target \<mapsto> depsMap(key \<mapsto> set_add e deps)),
                lastReads := (lastReads s)(e := lastReads s e @ [(target, key)])\<rparr>)"

definition deps_of :: "rstate \<Rightarrow> nat \<Rightarrow> string \<Rightarrow> nat list option" where
  "deps_of s target key =
     (case targetMap s target of None \<Rightarrow> None | Some depsMap \<Rightarrow> depsMap key)"

text \<open>The \<open>get\<close> trap of the proxy: track, then return the field.\<close>

definition reactive_get :: "nat \<Rightarrow> string \<Rightarrow> rstate \<Rightarrow> jsval \<times> rstate" where
  "reactive_get target key s = (store s (target, key), track target key s)"

text \<open>
  Running a body, the \<open>set\<close> trap, \<open>trigger\<close>, the \<open>deps.forEach\<close> loop and the wrapper
  \<open>effectFn\<close> call each other, and a body that writes a field it depends on never
  returns. The first argument bounds the number of calls; \<open>None\<close> is "did not return
  within the bound". \<open>forEach\<close> walks the live set by position, so a task added to the
  set during the iteration is visited, as \<open>Set.prototype.forEach\<close> does. The
  \<open>finally\<close> block of \<open>effectFn\<close> runs on both outcomes.
\<close>

function (sequential)
    exec :: "nat \<Rightarrow> (nat \<Rightarrow> stmt list) \<Rightarrow> stmt list \<Rightarrow> rstate \<Rightarrow> (outcome \<times> rstate) option"
and reactive_set :: "nat \<Rightarrow> (nat \<Rightarrow> stmt list) \<Rightarrow> nat \<Rightarrow> string \<Rightarrow> jsval \<Rightarrow> rstate \<Rightarrow> (outcome \<times> rstate) option"
and trigger :: "nat \<Rightarrow> (nat \<Rightarrow> stmt list) \<Rightarrow> nat \<Rightarrow> string \<Rightarrow> rstate \<Rightarrow> (outcome \<times> rstate) option"
and forEach :: "nat \<Rightarrow> (nat \<Rightarrow> stmt list) \<Rightarrow> nat \<Rightarrow> string \<Rightarrow> nat \<Rightarrow> rstate \<Rightarrow> (outcome \<times> rstate) option"
and effectFn :: "nat \<Rightarrow> (nat \<Rightarrow> stmt list) \<Rightarrow> nat \<Rightarrow> rstate \<Rightarrow> (outcome \<times> rstate) option"
where
  "exec 0 P cs s = None"
| "exec (Suc n) P [] s = Some (Normal, s)"
| "exec (Suc n) P (Read t k # cs) s = exec n P cs (snd (reactive_get t k s))"
| "exec (Suc n) P (Write t k v # cs) s =
     (case reactive_set n P t k v s of
        None \<Rightarrow> None
      | Some (Threw, s') \<Rightarrow> Some (Threw, s')
      | Some (Normal, s') \<Rightarrow> exec n P cs s')"
| "exec (Suc n) P (Throw # cs) s = Some (Threw, s)"
| "exec (Suc n) P (IfEq t k v body # cs) s =
     (let (x, s1) = reactive_get t k s in
      if x = v then
        (case exec n P body s1 of
           None \<Rightarrow> None
         | Some (Threw, s') \<Rightarrow> Some (Threw, s')
         | Some (Normal, s') \<Rightarrow> exec n P cs s')
      else exec n P cs s1)"
| "reactive_set 0 P t k v s = None"
| "reactive_set (Suc n) P t k v s =
     trigger n P t k (s\<lparr>store := (store s)((t, k) := v), events := events s @ [Wrote t k v]\<rparr>)"
| "trigger 0 P t k s = None"
| "trigger (Suc n) P t k s =
     (case targetMap s t of
        None \<Rightarrow> Some (Normal, s)
      | Some depsMap \<Rightarrow>
          (case depsMap k of
             None \<Rightarrow> Some (Normal, s)
           | Some deps \<Rightarrow> forEach n P t k 0 s))"
| "forEach 0 P t k i s = None"
| "forEach (Suc n) P t k i s =
     (case deps_of s t k of
        None \<Rightarrow> Some (Normal, s)
      | Some deps \<Rightarrow>
          if i < length deps then
            (case effectFn n P (deps ! i) s of
               None \<Rightarrow> None
             | Some (Threw, s') \<Rightarrow> Some (Threw, s')
             | Some (Normal, s') \<Rightarrow> forEach n P t k (Suc i) s')
          else Some (Normal, s))"
| "effectFn 0 P e s = None"
| "effectFn (Suc n) P e s =
     (let prevEffect = activeEffect s;
          s1 = s\<lparr>activeEffect := Some e, runs := (runs s)(e := Suc (runs s e)),
                 lastReads := (lastReads s)(e := []), events := events s @ [Started e]\<rparr>
      in case exec n P (P e) s1 of
           None \<Rightarrow> None
         | Some (out, s2) \<Rightarrow> Some (out, s2\<lparr>activeEffect := prevEffect\<rparr>))"
  by pat_completeness auto

termination
  by (relation "measure (\<lambda>x. case x of
            Inl (Inl (n, _)) \<Rightarrow> n
          | Inl (Inr (n, _)) \<Rightarrow> n
          | Inr (Inl (n, _)) \<Rightarrow> n
          | Inr (Inr (Inl (n, _))) \<Rightarrow> n
          | Inr (Inr (Inr (n, _))) \<Rightarrow> n)") auto

text \<open>\<open>effect(fn)\<close>: wrap, run once at once, return the wrapper (the task's number).\<close>

definition effect :: "nat \<Rightarrow> (nat \<Rightarrow> stmt list) \<Rightarrow> nat \<Rightarrow> rstate \<Rightarrow> (outcome \<times> rstate) option" where
  "effect n P e s = effectFn n P e s"

definition init :: rstate where
  "init = \<lparr>store = (\<lambda>_. Undefined), targetMap = Map.empty, activeEffect = None,
           runs = (\<lambda>_. 0), lastReads = (\<lambda>_. []), events = []\<rparr>"

text \<open>The dependency set of a field as a list (empty when none was ever created).\<close>

definition registered :: "rstate \<Rightarrow> nat \<Rightarrow> string \<Rightarrow> nat list" where
  "registered s t k = (case deps_of s t k of None \<Rightarrow> [] | Some ds \<Rightarrow> ds)"

text \<open>
  Where a body writes and reads: \<open>writes_in W\<close> holds when every write of the body goes
  to a field of \<open>W\<close>, \<open>reads_out W\<close> when the body reads no field of \<open>W\<close>. A body with
  \<open>writes_in {}\<close> performs no reactive write.
\<close>

fun writes_in :: "(nat \<times> string) set \<Rightarrow> stmt \<Rightarrow> bool"
and writes_in_list :: "(nat \<times> string) set \<Rightarrow> stmt list \<Rightarrow> bool" where
  "writes_in W (Read t k) = True"
| "writes_in W (Write t k v) = ((t, k) \<in> W)"
| "writes_in W Throw = True"
| "writes_in W (IfEq t k v body) = writes_in_list W body"
| "writes_in_list W [] = True"
| "writes_in_list W (c # cs) = (writes_in W c \<and> writes_in_list W cs)"

fun reads_out :: "(nat \<times> string) set \<Rightarrow> stmt \<Rightarrow> bool"
and reads_out_list :: "(nat \<times> string) set \<Rightarrow> stmt list \<Rightarrow> bool" where
  "reads_out W (Read t k) = ((t, k) \<notin> W)"
| "reads_out W (Write t k v) = True"
| "reads_out W Throw = True"
| "reads_out W (IfEq t k v body) = ((t, k) \<notin> W \<and> reads_out_list W body)"
| "reads_out_list W [] = True"
| "reads_out_list W (c # cs) = (reads_out W c \<and> reads_out_list W cs)"

text \<open>Every task registered on a field of \<open>W\<close> is in \<open>R\<close>.\<close>

definition observers_in :: "rstate \<Rightarrow> (nat \<times> string) set \<Rightarrow> nat set \<Rightarrow> bool" where
  "observers_in s W R = (\<forall>(t, k)\<in>W. set (registered s t k) \<subseteq> R)"

text \<open>
  The tasks a write can reach. \<open>reach_closed P s W R\<close>: every task registered on a field
  of \<open>W\<close> is in \<open>R\<close>, and every task of \<open>R\<close> writes only fields of \<open>W\<close>. Then a write to
  a field of \<open>W\<close> starts tasks of \<open>R\<close> only, however the tasks cascade.
\<close>

definition reach_closed :: "(nat \<Rightarrow> stmt list) \<Rightarrow> rstate \<Rightarrow> (nat \<times> string) set \<Rightarrow> nat set \<Rightarrow> bool" where
  "reach_closed P s W R = ((\<forall>U\<in>R. writes_in_list W (P U)) \<and> observers_in s W R)"

text \<open>No task is registered on any field of \<open>W\<close>: a write to such a field starts nothing.\<close>

definition unobserved :: "rstate \<Rightarrow> (nat \<times> string) set \<Rightarrow> bool" where
  "unobserved s W = (\<forall>(t, k)\<in>W. registered s t k = [])"

text \<open>A bound on the calls a body needs when its writes start no task.\<close>

fun cost :: "stmt \<Rightarrow> nat" and cost_list :: "stmt list \<Rightarrow> nat" where
  "cost (Read t k) = 1"
| "cost (Write t k v) = 3"
| "cost Throw = 1"
| "cost (IfEq t k v body) = Suc (cost_list body)"
| "cost_list [] = 1"
| "cost_list (c # cs) = cost c + cost_list cs"

definition fuel_for :: "(nat \<Rightarrow> stmt list) \<Rightarrow> nat list \<Rightarrow> nat" where
  "fuel_for P ds = sum_list (map (\<lambda>U. cost_list (P U) + 2) ds)"

definition deps_kept :: "nat \<Rightarrow> rstate \<Rightarrow> rstate \<Rightarrow> bool" where
  "deps_kept e s s' =
     (\<forall>t k ds. deps_of s t k = Some ds \<longrightarrow> e \<in> set ds \<longrightarrow> deps_of s' t k = Some ds)"

text \<open>
  How a run of tasks of \<open>R\<close> that write only fields of \<open>W\<close> changes the state.
  \<open>grows\<close>: dependency sets gain tasks of \<open>A\<close> only (of \<open>R\<close> only on the fields of
  \<open>W\<close>), at the end and without repetition. \<open>step\<close>: moreover only tasks of \<open>R\<close>
  were started and only fields of \<open>W\<close> were written.
\<close>

definition grows :: "(nat \<times> string) set \<Rightarrow> nat set \<Rightarrow> nat set \<Rightarrow> rstate \<Rightarrow> rstate \<Rightarrow> bool" where
  "grows W R A s s' =
     (\<forall>t k. \<exists>more. registered s' t k = registered s t k @ more \<and> set more \<subseteq> A \<and>
                    ((t, k) \<in> W \<longrightarrow> set more \<subseteq> R) \<and> set more \<inter> set (registered s t k) = {})"

definition step :: "(nat \<times> string) set \<Rightarrow> nat set \<Rightarrow> nat set \<Rightarrow> rstate \<Rightarrow> rstate \<Rightarrow> bool" where
  "step W R A s s' =
     (grows W R A s s' \<and>
      (\<forall>U. U \<notin> R \<longrightarrow> runs s' U = runs s U) \<and>
      (\<exists>ev. events s' = events s @ ev \<and> (\<forall>e. Started e \<in> set ev \<longrightarrow> e \<in> R) \<and>
            (\<forall>t k v. Wrote t k v \<in> set ev \<longrightarrow> (t, k) \<in> W)) \<and>
      (\<forall>tk. tk \<notin> W \<longrightarrow> store s' tk = store s tk))"

subsection \<open>Example programs\<close>

text \<open>
  \<open>effect(() => { if (s.f === 0) s.f = 1 })\<close> on a subject whose \<open>f\<close> is not \<open>0\<close>
  at first: the task is registered on \<open>f\<close> and nothing else.
\<close>

definition selfwrite_prog :: "nat \<Rightarrow> stmt list" where
  "selfwrite_prog e = (if e = 0 then [IfEq 0 ''f'' (Num 0) [Write 0 ''f'' (Num 1)]] else [])"

definition selfwrite_state :: rstate where
  "selfwrite_state =
     (case effect 10 selfwrite_prog 0 init of Some (out, s) \<Rightarrow> s | None \<Rightarrow> init)"

text \<open>
  \<open>effect(() => { s.f; s.seen = 1 })\<close> on a subject with \<open>f = 1\<close>: the task reads \<open>f\<close>
  and writes a field that nothing depends on.
\<close>

definition reader_prog :: "nat \<Rightarrow> stmt list" where
  "reader_prog e = (if e = 0 then [Read 0 ''f'', Write 0 ''seen'' (Num 1)] else [])"

definition reader_state :: rstate where
  "reader_state =
     (case effect 10 reader_prog 0 (init\<lparr>store := (store init)((0, ''f'') := Num 1)\<rparr>) of
        Some (out, s) \<Rightarrow> s | None \<Rightarrow> init)"

text \<open>
  Task 0 is \<open>() => { s.f; throw ... }\<close>, task 1 is \<open>() => { s.f = 1; s.g }\<close>. Task 0
  was created first (its creation threw, after it had registered on \<open>f\<close>); task 1 is
  then started while some task 7 is current.
\<close>

definition thrower_prog :: "nat \<Rightarrow> stmt list" where
  "thrower_prog e =
     (if e = 0 then [Read 0 ''f'', Throw]
      else if e = 1 then [Write 0 ''f'' (Num 1), Read 0 ''g''] else [])"

definition thrower_state :: rstate where
  "thrower_state =
     (case effect 10 thrower_prog 0 init of
        Some (out, s) \<Rightarrow> s\<lparr>activeEffect := Some 7\<rparr> | None \<Rightarrow> init)"

text \<open>
  \<open>effect(() => { if (s.f === 0) s.g })\<close> on a subject \<open>{f: 0, g: 0}\<close>, followed by
  the write \<open>s.f = 1\<close>: the first execution read \<open>f\<close> and \<open>g\<close>, the second only \<open>f\<close>.
\<close>

definition stale_prog :: "nat \<Rightarrow> stmt list" where
  "stale_prog e = (if e = 0 then [IfEq 0 ''f'' (Num 0) [Read 0 ''g'']] else [])"

definition stale_state :: rstate where
  "stale_state =
     (case effect 10 stale_prog 0
             (init\<lparr>store := (store init)((0, ''f'') := Num 0, (0, ''g'') := Num 0)\<rparr>) of
        None \<Rightarrow> init
      | Some (out, s1) \<Rightarrow>
          (case reactive_set 10 stale_prog 0 ''f'' (Num 1) s1 of
             None \<Rightarrow> init | Some (out, s2) \<Rightarrow> s2))"

text \<open>
  Task 0 is \<open>() => { s.f }\<close>, task 1 is \<open>() => { s.g; s.f = 2 }\<close>; both were created,
  in this order. Task 0 never read \<open>g\<close>, but task 1, which depends on \<open>g\<close>, writes \<open>f\<close>.
\<close>

definition cascade_prog :: "nat \<Rightarrow> stmt list" where
  "cascade_prog e =
     (if e = 0 then [Read 0 ''f'']
      else if e = 1 then [Read 0 ''g'', Write 0 ''f'' (Num 2)] else [])"

definition cascade_state :: rstate where
  "cascade_state =
     (case effect 10 cascade_prog 0 init of
        None \<Rightarrow> init
      | Some (out, s1) \<Rightarrow>
          (case effect 10 cascade_prog 1 s1 of None \<Rightarrow> init | Some (out, s2) \<Rightarrow> s2))"

text \<open>
  Task 0 is \<open>() => { s.f }\<close>, task 1 is \<open>() => { s.g; s.h = 1 }\<close>; both have run once.
  Nothing depends on \<open>h\<close>.
\<close>

definition two_prog :: "nat \<Rightarrow> stmt list" where
  "two_prog e =
     (if e = 0 then [Read 0 ''f'']
      else if e = 1 then [Read 0 ''g'', Write 0 ''h'' (Num 1)] else [])"

definition two_state :: rstate where
  "two_state =
     (case effect 10 two_prog 0 init of
        None \<Rightarrow> init
      | Some (out, s1) \<Rightarrow>
          (case effect 10 two_prog 1 s1 of None \<Rightarrow> init | Some (out, s2) \<Rightarrow> s2))"

section \<open>The node backend\<close>

text \<open>
  The external tree the renderer mutates. A node handle is a number, the position of the
  node in \<open>nodes\<close>; a new node gets the next free number. Every call of a mutating
  method that returns normally is appended to \<open>trace\<close>, so that "no mutation" can be
  stated. The backend calls follow the DOM: \<open>createElement\<close> and \<open>setAttribute\<close> raise
  \<open>InvalidCharacterError\<close> for a name that is not a valid name, \<open>addEventListener\<close> and
  \<open>removeEventListener\<close> raise \<open>TypeError\<close> for a listener that is neither an object
  nor \<open>null\<close> or \<open>undefined\<close>, \<open>appendChild\<close> and \<open>insertBefore\<close> first take the node
  out of its present parent, \<open>insertBefore\<close> and \<open>removeChild\<close> raise \<open>NotFoundError\<close>
  when the reference node is not a child of the parent. The check that a node is not
  inserted below itself is not modelled.
\<close>

datatype error = TypeError | NotFoundError | InvalidCharacterError

datatype op =
    SetAttribute nat string jsval
  | RemoveAttribute nat string
  | AddEventListener nat string jsval
  | RemoveEventListener nat string jsval
  | AppendChild nat nat
  | InsertBefore nat nat nat
  | RemoveChild nat nat
  | SetTextContent nat string

record node =
  isText :: bool
  tagName :: string
  textData :: string
  attrs :: "string \<Rightarrow> jsval option"
  listeners :: "(string \<times> jsval) list"
  kids :: "nat list"
  up :: "nat option"

record dom =
  nodes :: "node list"
  trace :: "op list"

definition childNodes :: "dom \<Rightarrow> nat \<Rightarrow> nat list" where
  "childNodes d n = (if n < length (nodes d) then kids (nodes d ! n) else [])"

definition parentNode :: "dom \<Rightarrow> nat \<Rightarrow> nat option" where
  "parentNode d n = (if n < length (nodes d) then up (nodes d ! n) else None)"

text \<open>\<open>xs[i]\<close> of JavaScript: \<open>undefined\<close> out of range.\<close>

definition nth_opt :: "'a list \<Rightarrow> nat \<Rightarrow> 'a option" where
  "nth_opt xs i = (if i < length xs then Some (xs ! i) else None)"

fun next_in :: "nat \<Rightarrow> nat list \<Rightarrow> nat option" where
  "next_in x [] = None"
| "next_in x [y] = None"
| "next_in x (y # z # zs) = (if y = x then Some z else next_in x (z # zs))"

definition nextSibling :: "dom \<Rightarrow> nat \<Rightarrow> nat option" where
  "nextSibling d n =
     (case parentNode d n of None \<Rightarrow> None | Some p \<Rightarrow> next_in n (childNodes d p))"

definition upd :: "nat \<Rightarrow> (node \<Rightarrow> node) \<Rightarrow> dom \<Rightarrow> dom" where
  "upd n f d = d\<lparr>nodes := (nodes d)[n := f (nodes d ! n)]\<rparr>"

definition log :: "op \<Rightarrow> dom \<Rightarrow> dom" where
  "log x d = d\<lparr>trace := trace d @ [x]\<rparr>"

definition alloc :: "node \<Rightarrow> dom \<Rightarrow> dom" where
  "alloc n d = d\<lparr>nodes := nodes d @ [n]\<rparr>"

definition new_element :: "string \<Rightarrow> node" where
  "new_element tag = \<lparr>isText = False, tagName = tag, textData = [], attrs = Map.empty,
                       listeners = [], kids = [], up = None\<rparr>"

definition new_text :: "string \<Rightarrow> node" where
  "new_text s = \<lparr>isText = True, tagName = ''#text'', textData = s, attrs = Map.empty,
                  listeners = [], kids = [], up = None\<rparr>"

text \<open>
  Names of elements and attributes: the \<open>Name\<close> production of XML. A first character is
  a letter, \<open>_\<close> or \<open>:\<close>; a later one may also be a digit, \<open>-\<close> or \<open>.\<close>. A byte above
  127 (part of a character outside ASCII) is taken as a letter.
\<close>

definition name_start_char :: "char \<Rightarrow> bool" where
  "name_start_char c =
     (c \<in> set ''ABCDEFGHIJKLMNOPQRSTUVWXYZabcdefghijklmnopqrstuvwxyz_:'' \<or> digit7 c)"

definition name_char :: "char \<Rightarrow> bool" where
  "name_char c = (name_start_char c \<or> c \<in> set ''0123456789-.'')"

definition valid_name :: "string \<Rightarrow> bool" where
  "valid_name s = (case s of [] \<Rightarrow> False | c # cs \<Rightarrow> name_start_char c \<and> list_all name_char cs)"

text \<open>
  What the DOM accepts as the listener argument: an object (every function is one),
  \<open>null\<close> or \<open>undefined\<close>. For the last two the call does nothing.
\<close>

fun listener_arg :: "jsval \<Rightarrow> bool" where
  "listener_arg Undefined = True"
| "listener_arg Null = True"
| "listener_arg (Bool b) = False"
| "listener_arg (Num n) = False"
| "listener_arg (Str s) = False"
| "listener_arg (Fn f) = True"
| "listener_arg (Builtin name) = True"

definition nullish :: "jsval \<Rightarrow> bool" where
  "nullish v = (v = Undefined \<or> v = Null)"

definition createElement :: "string \<Rightarrow> dom \<Rightarrow> error + (nat \<times> dom)" where
  "createElement tag d =
     (if valid_name tag then Inr (length (nodes d), alloc (new_element tag) d)
      else Inl InvalidCharacterError)"

definition createTextNode :: "string \<Rightarrow> dom \<Rightarrow> nat \<times> dom" where
  "createTextNode s d = (length (nodes d), alloc (new_text s) d)"

definition is_text :: "dom \<Rightarrow> nat \<Rightarrow> bool" where
  "is_text d n = (n < length (nodes d) \<and> isText (nodes d ! n))"

definition tagOf :: "dom \<Rightarrow> nat \<Rightarrow> string" where
  "tagOf d n = (if n < length (nodes d) then tagName (nodes d ! n) else [])"

definition do_setAttribute :: "nat \<Rightarrow> string \<Rightarrow> jsval \<Rightarrow> dom \<Rightarrow> dom" where
  "do_setAttribute el k v d =
     log (SetAttribute el k v) (upd el (\<lambda>n. n\<lparr>attrs := (attrs n)(k \<mapsto> v)\<rparr>) d)"

definition setAttribute :: "nat \<Rightarrow> string \<Rightarrow> jsval \<Rightarrow> dom \<Rightarrow> error + dom" where
  "setAttribute el k v d =
     (if valid_name k then Inr (do_setAttribute el k v d) else Inl InvalidCharacterError)"

definition removeAttribute :: "nat \<Rightarrow> string \<Rightarrow> dom \<Rightarrow> dom" where
  "removeAttribute el k d = log (RemoveAttribute el k) (upd el (\<lambda>n. n\<lparr>attrs := (attrs n)(k := None)\<rparr>) d)"

definition do_addEventListener :: "nat \<Rightarrow> string \<Rightarrow> jsval \<Rightarrow> dom \<Rightarrow> dom" where
  "do_addEventListener el ev f d =
     log (AddEventListener el ev f)
       (if nullish f then d
        else upd el (\<lambda>n. n\<lparr>listeners := (if (ev, f) \<in> set (listeners n) then listeners n
                                          else listeners n @ [(ev, f)])\<rparr>) d)"

definition addEventListener :: "nat \<Rightarrow> string \<Rightarrow> jsval \<Rightarrow> dom \<Rightarrow> error + dom" where
  "addEventListener el ev f d =
     (if listener_arg f then Inr (do_addEventListener el ev f d) else Inl TypeError)"

definition do_removeEventListener :: "nat \<Rightarrow> string \<Rightarrow> jsval \<Rightarrow> dom \<Rightarrow> dom" where
  "do_removeEventListener el ev f d =
     log (RemoveEventListener el ev f)
       (upd el (\<lambda>n. n\<lparr>listeners := removeAll (ev, f) (listeners n)\<rparr>) d)"

definition removeEventListener :: "nat \<Rightarrow> string \<Rightarrow> jsval \<Rightarrow> dom \<Rightarrow> error + dom" where
  "removeEventListener el ev f d =
     (if listener_arg f then Inr (do_removeEventListener el ev f d) else Inl TypeError)"

text \<open>Taking a node out of its parent (the DOM's internal "remove").\<close>

definition detach :: "nat \<Rightarrow> dom \<Rightarrow> dom" where
  "detach x d =
     (case parentNode d x of
        None \<Rightarrow> d
      | Some p \<Rightarrow> upd x (\<lambda>n. n\<lparr>up := None\<rparr>) (upd p (\<lambda>n. n\<lparr>kids := removeAll x (kids n)\<rparr>) d))"

definition appendChild :: "nat \<Rightarrow> nat \<Rightarrow> dom \<Rightarrow> dom" where
  "appendChild p x d =
     log (AppendChild p x)
       (upd x (\<lambda>n. n\<lparr>up := Some p\<rparr>) (upd p (\<lambda>n. n\<lparr>kids := kids n @ [x]\<rparr>) (detach x d)))"

definition insert_before :: "nat \<Rightarrow> nat \<Rightarrow> nat list \<Rightarrow> nat list" where
  "insert_before x a xs = takeWhile (\<lambda>y. y \<noteq> a) xs @ x # dropWhile (\<lambda>y. y \<noteq> a) xs"

text \<open>
  \<open>insertBefore\<close> with the node itself as reference leaves the order as it is (the
  reference becomes the node's next sibling); the call is still a mutation.
\<close>

definition do_insertBefore :: "nat \<Rightarrow> nat \<Rightarrow> nat \<Rightarrow> dom \<Rightarrow> dom" where
  "do_insertBefore p x a d =
     (if x = a then log (InsertBefore p x a) d
      else log (InsertBefore p x a)
             (upd x (\<lambda>n. n\<lparr>up := Some p\<rparr>)
               (upd p (\<lambda>n. n\<lparr>kids := insert_before x a (kids n)\<rparr>) (detach x d))))"

definition insertBefore :: "nat \<Rightarrow> nat \<Rightarrow> nat \<Rightarrow> dom \<Rightarrow> error + dom" where
  "insertBefore p x a d =
     (if a \<notin> set (childNodes d p) then Inl NotFoundError else Inr (do_insertBefore p x a d))"

definition do_removeChild :: "nat \<Rightarrow> nat \<Rightarrow> dom \<Rightarrow> dom" where
  "do_removeChild p x d =
     log (RemoveChild p x)
       (upd x (\<lambda>n. n\<lparr>up := None\<rparr>) (upd p (\<lambda>n. n\<lparr>kids := removeAll x (kids n)\<rparr>) d))"

definition removeChild :: "nat \<Rightarrow> nat \<Rightarrow> dom \<Rightarrow> error + dom" where
  "removeChild p x d =
     (if x \<notin> set (childNodes d p) then Inl NotFoundError else Inr (do_removeChild p x d))"

text \<open>
  The setter of \<open>textContent\<close>: on a text node it replaces the data; on an element it
  drops every child and, for a non-empty string, puts one new text node in their place.
\<close>

definition drop_children :: "nat \<Rightarrow> dom \<Rightarrow> dom" where
  "drop_children t d =
     upd t (\<lambda>n. n\<lparr>kids := []\<rparr>) (fold (\<lambda>y. upd y (\<lambda>n. n\<lparr>up := None\<rparr>)) (childNodes d t) d)"

definition set_textContent :: "nat \<Rightarrow> string \<Rightarrow> dom \<Rightarrow> dom" where
  "set_textContent t s d =
     (if is_text d t
      then log (SetTextContent t s) (upd t (\<lambda>n. n\<lparr>textData := s\<rparr>) d)
      else if s = [] then log (SetTextContent t s) (drop_children t d)
      else log (SetTextContent t s)
             (upd (length (nodes d)) (\<lambda>n. n\<lparr>up := Some t\<rparr>)
               (upd t (\<lambda>n. n\<lparr>kids := [length (nodes d)]\<rparr>)
                 (alloc (new_text s) (drop_children t d)))))"

text \<open>
  A method call on a handle that may be \<open>null\<close> (the \<open>el\<close> of a descriptor that was
  never materialized): \<open>TypeError\<close> when it is.
\<close>

definition call :: "nat option \<Rightarrow> (nat \<Rightarrow> dom \<Rightarrow> error + 'a) \<Rightarrow> dom \<Rightarrow> error + 'a" where
  "call handle method d = (case handle of None \<Rightarrow> Inl TypeError | Some n \<Rightarrow> method n d)"

section \<open>Node descriptors and the renderer (vdom/index.js)\<close>

text \<open>
  A child is a string (\<open>VText\<close>) or a descriptor object (\<open>VNode tag props children key el\<close>).
  \<open>props\<close> is the attribute object, its own properties in enumeration order; \<open>children\<close>
  the child sequence that \<open>h\<close> builds (a \<open>null\<close> child list behaves as the empty one
  wherever the source reads it; a bare string in place of the sequence, which \<open>h\<close> never
  produces, is not represented), \<open>key\<close> is \<open>Undefined\<close> when there is none, and \<open>el\<close>
  is \<open>None\<close> for \<open>null\<close>. The source updates \<open>el\<close> in place; the functions below return
  the descriptor with \<open>el\<close> filled in instead.
\<close>

datatype vnode =
    VText string
  | VNode string "(string \<times> jsval) list" "vnode list" jsval "nat option"

fun vkey :: "vnode \<Rightarrow> jsval" where
  "vkey (VText s) = Undefined"
| "vkey (VNode tag props children key el) = key"

fun vel :: "vnode \<Rightarrow> nat option" where
  "vel (VText s) = None"
| "vel (VNode tag props children key el) = el"

fun is_object :: "vnode \<Rightarrow> bool" where
  "is_object (VText s) = False"
| "is_object (VNode tag props children key el) = True"

text \<open>
  An attribute object is an ordinary object, so besides its own properties it has the
  members of \<open>Object.prototype\<close>. They are not enumerated by \<open>for ... in\<close>, but
  \<open>props[key]\<close> yields them and \<open>key in props\<close> sees them.
\<close>

definition object_prototype :: "string list" where
  "object_prototype =
     [''constructor'', ''__defineGetter__'', ''__defineSetter__'', ''hasOwnProperty'',
      ''__lookupGetter__'', ''__lookupSetter__'', ''isPrototypeOf'', ''propertyIsEnumerable'',
      ''toString'', ''valueOf'', ''__proto__'', ''toLocaleString'']"

text \<open>\<open>props[key]\<close>: the own value, else the inherited member, else \<open>undefined\<close>.\<close>

definition lookup :: "(string \<times> jsval) list \<Rightarrow> string \<Rightarrow> jsval" where
  "lookup props k =
     (case map_of props k of
        Some v \<Rightarrow> v
      | None \<Rightarrow> if k \<in> set object_prototype then Builtin k else Undefined)"

text \<open>\<open>key in props\<close>.\<close>

definition key_in :: "string \<Rightarrow> (string \<times> jsval) list \<Rightarrow> bool" where
  "key_in k props = (k \<in> fst ` set props \<or> k \<in> set object_prototype)"

text \<open>What \<open>h\<close> is given as \<open>children\<close>: an array, a single value, or nothing.\<close>

datatype children_arg = Many "vnode list" | Single vnode | NoChildren

definition h :: "string \<Rightarrow> (string \<times> jsval) list \<Rightarrow> children_arg \<Rightarrow> vnode" where
  "h tag props children =
     VNode tag props
       (case children of Many cs \<Rightarrow> cs | Single c \<Rightarrow> [c] | NoChildren \<Rightarrow> [])
       (lookup props ''key'') None"

definition startsWith_on :: "string \<Rightarrow> bool" where
  "startsWith_on k = (take 2 k = ''on'')"

definition toLowerCase :: "string \<Rightarrow> string" where
  "toLowerCase s =
     map (\<lambda>c. case map_of (zip ''ABCDEFGHIJKLMNOPQRSTUVWXYZ'' ''abcdefghijklmnopqrstuvwxyz'') c of
                None \<Rightarrow> c | Some l \<Rightarrow> l) s"

definition eventName :: "string \<Rightarrow> string" where
  "eventName k = toLowerCase (drop 2 k)"

text \<open>The attribute loop of \<open>mount\<close>: \<open>for (const key in vnode.props)\<close>.\<close>

fun mount_props :: "nat \<Rightarrow> (string \<times> jsval) list \<Rightarrow> (string \<times> jsval) list \<Rightarrow> dom \<Rightarrow> error + dom" where
  "mount_props el props [] d = Inr d"
| "mount_props el props ((k, x) # rest) d =
     (case (if startsWith_on k then addEventListener el (eventName k) (lookup props k) d
            else setAttribute el k (lookup props k) d) of
        Inl err \<Rightarrow> Inl err
      | Inr d1 \<Rightarrow> mount_props el props rest d1)"

text \<open>
  \<open>mount\<close>. Called on a string (which the source does for new text children of the
  diff), it creates an element named \<open>undefined\<close> and then fails at \<open>vnode.el = el\<close>:
  the file is a module, so strict, and a property of a primitive cannot be assigned.
  The container is used only by the last statement, \<open>container.appendChild(el)\<close>.
\<close>

function (sequential)
    mount :: "vnode \<Rightarrow> nat option \<Rightarrow> dom \<Rightarrow> error + (vnode \<times> dom)"
and mount_children :: "vnode list \<Rightarrow> nat \<Rightarrow> dom \<Rightarrow> error + (vnode list \<times> dom)"
where
  "mount (VText s) container d = Inl TypeError"
| "mount (VNode tag props children key el0) container d =
     (case createElement tag d of
        Inl err \<Rightarrow> Inl err
      | Inr (el, d1) \<Rightarrow>
          (case mount_props el props props d1 of
             Inl err \<Rightarrow> Inl err
           | Inr d2 \<Rightarrow>
               (case mount_children children el d2 of
                  Inl err \<Rightarrow> Inl err
                | Inr (children', d3) \<Rightarrow>
                    (case container of
                       None \<Rightarrow> Inl TypeError
                     | Some c \<Rightarrow>
                         Inr (VNode tag props children' key (Some el), appendChild c el d3)))))"
| "mount_children [] el d = Inr ([], d)"
| "mount_children (VText s # rest) el d =
     (let (t, d1) = createTextNode s d
      in case mount_children rest el (appendChild el t d1) of
           Inl err \<Rightarrow> Inl err
         | Inr (rest', d2) \<Rightarrow> Inr (VText s # rest', d2))"
| "mount_children (VNode tag props children key el0 # rest) el d =
     (case mount (VNode tag props children key el0) (Some el) d of
        Inl err \<Rightarrow> Inl err
      | Inr (child', d1) \<Rightarrow>
          (case mount_children rest el d1 of
             Inl err \<Rightarrow> Inl err
           | Inr (rest', d2) \<Rightarrow> Inr (child' # rest', d2)))"
  by pat_completeness auto

termination
  by (relation "measure (\<lambda>x. case x of
            Inl (v, _) \<Rightarrow> size v
          | Inr (cs, _) \<Rightarrow> size_list size cs)") auto

text \<open>
  \<open>patchProps\<close>: the loop over the new attributes, then the loop over the old ones;
  \<open>patch_new_key\<close> and \<open>patch_old_key\<close> are the bodies of the two loops.
  \<open>el\<close> is \<open>oldVnode.el\<close>, which may be \<open>null\<close>.
\<close>

definition patch_new_key :: "nat option \<Rightarrow> (string \<times> jsval) list \<Rightarrow> (string \<times> jsval) list \<Rightarrow>
    string \<Rightarrow> dom \<Rightarrow> error + dom" where
  "patch_new_key el oldProps newProps k d =
     (let oldValue = lookup oldProps k; newValue = lookup newProps k
      in if oldValue = newValue then Inr d
         else if startsWith_on k then
           (case (if truthy oldValue
                  then call el (\<lambda>n. removeEventListener n (eventName k) oldValue) d
                  else Inr d) of
              Inl err \<Rightarrow> Inl err
            | Inr d1 \<Rightarrow> call el (\<lambda>n. addEventListener n (eventName k) newValue) d1)
         else call el (\<lambda>n. setAttribute n k newValue) d)"

fun patchProps_new :: "nat option \<Rightarrow> (string \<times> jsval) list \<Rightarrow> (string \<times> jsval) list \<Rightarrow>
    (string \<times> jsval) list \<Rightarrow> dom \<Rightarrow> error + dom" where
  "patchProps_new el oldProps newProps [] d = Inr d"
| "patchProps_new el oldProps newProps ((k, x) # rest) d =
     (case patch_new_key el oldProps newProps k d of
        Inl err \<Rightarrow> Inl err
      | Inr d1 \<Rightarrow> patchProps_new el oldProps newProps rest d1)"

definition patch_old_key :: "nat option \<Rightarrow> (string \<times> jsval) list \<Rightarrow> (string \<times> jsval) list \<Rightarrow>
    string \<Rightarrow> dom \<Rightarrow> error + dom" where
  "patch_old_key el oldProps newProps k d =
     (if \<not> key_in k newProps then
        (if startsWith_on k
         then call el (\<lambda>n. removeEventListener n (eventName k) (lookup oldProps k)) d
         else call el (\<lambda>n d. Inr (removeAttribute n k d)) d)
      else Inr d)"

fun patchProps_old :: "nat option \<Rightarrow> (string \<times> jsval) list \<Rightarrow> (string \<times> jsval) list \<Rightarrow>
    (string \<times> jsval) list \<Rightarrow> dom \<Rightarrow> error + dom" where
  "patchProps_old el oldProps newProps [] d = Inr d"
| "patchProps_old el oldProps newProps ((k, x) # rest) d =
     (case patch_old_key el oldProps newProps k d of
        Inl err \<Rightarrow> Inl err
      | Inr d1 \<Rightarrow> patchProps_old el oldProps newProps rest d1)"

definition patchProps :: "nat option \<Rightarrow> (string \<times> jsval) list \<Rightarrow> (string \<times> jsval) list \<Rightarrow>
    dom \<Rightarrow> error + dom" where
  "patchProps el oldProps newProps d =
     (case patchProps_new el oldProps newProps newProps d of
        Inl err \<Rightarrow> Inl err
      | Inr d1 \<Rightarrow> patchProps_old el oldProps newProps oldProps d1)"

definition hasKeyedChildren :: "vnode list \<Rightarrow> bool" where
  "hasKeyedChildren children = list_ex (\<lambda>child. is_object child \<and> vkey child \<noteq> Undefined) children"

text \<open>\<open>findAnchor\<close>; \<open>newIndices\<close> is the set of matched new indices.\<close>

fun findAnchor_from :: "nat list \<Rightarrow> vnode list \<Rightarrow> nat list \<Rightarrow> nat option" where
  "findAnchor_from [] newChildren newIndices = None"
| "findAnchor_from (i # rest) newChildren newIndices =
     (if i \<in> set newIndices then
        (case vel (newChildren ! i) of
           Some e \<Rightarrow> Some e
         | None \<Rightarrow> findAnchor_from rest newChildren newIndices)
      else findAnchor_from rest newChildren newIndices)"

definition findAnchor :: "nat \<Rightarrow> vnode list \<Rightarrow> nat list \<Rightarrow> nat option" where
  "findAnchor targetIndex newChildren newIndices =
     findAnchor_from [targetIndex + 1 ..< length newChildren] newChildren newIndices"

text \<open>Step 1 of the keyed algorithm: the map from key to new index (a later index wins).\<close>

fun keyToNewIndexMap :: "nat \<Rightarrow> vnode list \<Rightarrow> (jsval \<Rightarrow> nat option) \<Rightarrow> (jsval \<Rightarrow> nat option)" where
  "keyToNewIndexMap i [] m = m"
| "keyToNewIndexMap i (child # rest) m =
     keyToNewIndexMap (Suc i) rest
       (if is_object child \<and> vkey child \<noteq> Undefined then m(vkey child \<mapsto> i) else m)"

text \<open>
  The parts of the two child algorithms that do not call \<open>patch\<close>. The container is
  the \<open>el\<close> of the old parent descriptor, so it may be \<open>null\<close>.
\<close>

fun mount_all :: "vnode list \<Rightarrow> nat option \<Rightarrow> dom \<Rightarrow> error + (vnode list \<times> dom)" where
  "mount_all [] container d = Inr ([], d)"
| "mount_all (child # rest) container d =
     (case mount child container d of
        Inl err \<Rightarrow> Inl err
      | Inr (child', d1) \<Rightarrow>
          (case mount_all rest container d1 of
             Inl err \<Rightarrow> Inl err
           | Inr (rest', d2) \<Rightarrow> Inr (child' # rest', d2)))"

text \<open>
  \<open>typeof oldChild === 'string' ? container.childNodes[i] : oldChild.el\<close>, followed by
  \<open>container.removeChild(oldEl)\<close>.
\<close>

definition oldEl_of :: "vnode \<Rightarrow> nat \<Rightarrow> nat \<Rightarrow> dom \<Rightarrow> nat option" where
  "oldEl_of oldChild container i d =
     (case oldChild of
        VText s \<Rightarrow> nth_opt (childNodes d container) i
      | VNode tag props children key el \<Rightarrow> el)"

definition remove_old :: "vnode \<Rightarrow> nat option \<Rightarrow> nat \<Rightarrow> dom \<Rightarrow> error + dom" where
  "remove_old oldChild container i d =
     call container
       (\<lambda>c d. case oldEl_of oldChild c i d of
                None \<Rightarrow> Inl TypeError
              | Some x \<Rightarrow> removeChild c x d) d"

fun unkeyed_remove :: "nat list \<Rightarrow> vnode list \<Rightarrow> nat option \<Rightarrow> dom \<Rightarrow> error + dom" where
  "unkeyed_remove [] oldChildren container d = Inr d"
| "unkeyed_remove (i # rest) oldChildren container d =
     (case remove_old (oldChildren ! i) container i d of
        Inl err \<Rightarrow> Inl err
      | Inr d1 \<Rightarrow> unkeyed_remove rest oldChildren container d1)"

fun keyed_move :: "nat list \<Rightarrow> vnode list \<Rightarrow> (nat \<Rightarrow> nat option) \<Rightarrow> vnode list \<Rightarrow> nat list \<Rightarrow>
    int \<Rightarrow> nat option \<Rightarrow> dom \<Rightarrow> error + dom" where
  "keyed_move [] oldChildren o2n newChildren newIndices lastMovedIndex container d = Inr d"
| "keyed_move (oldIndex # rest) oldChildren o2n newChildren newIndices lastMovedIndex container d =
     (case o2n oldIndex of
        None \<Rightarrow> keyed_move rest oldChildren o2n newChildren newIndices lastMovedIndex container d
      | Some newIndex \<Rightarrow>
          if int newIndex > lastMovedIndex then
            keyed_move rest oldChildren o2n newChildren newIndices (int newIndex) container d
          else
            (case (case findAnchor newIndex newChildren newIndices of
                     Some anchor \<Rightarrow>
                       call container
                         (\<lambda>c d. case vel (oldChildren ! oldIndex) of
                                  None \<Rightarrow> Inl TypeError
                                | Some oe \<Rightarrow> insertBefore c oe anchor d) d
                   | None \<Rightarrow>
                       call container
                         (\<lambda>c d. case vel (oldChildren ! oldIndex) of
                                  None \<Rightarrow> Inl TypeError
                                | Some oe \<Rightarrow> Inr (appendChild c oe d)) d) of
               Inl err \<Rightarrow> Inl err
             | Inr d1 \<Rightarrow>
                 keyed_move rest oldChildren o2n newChildren newIndices
                   lastMovedIndex container d1))"

fun keyed_insert :: "nat list \<Rightarrow> vnode list \<Rightarrow> nat list \<Rightarrow> nat option \<Rightarrow> dom \<Rightarrow>
    error + (vnode list \<times> dom)" where
  "keyed_insert [] newChildren newIndices container d = Inr (newChildren, d)"
| "keyed_insert (newIndex # rest) newChildren newIndices container d =
     (if newIndex \<notin> set newIndices then
        (let newChild = newChildren ! newIndex;
             anchor = findAnchor newIndex newChildren newIndices
         in case mount newChild container d of
              Inl err \<Rightarrow> Inl err
            | Inr (newChild', d1) \<Rightarrow>
                (case anchor of
                   Some a \<Rightarrow>
                     (case call container
                             (\<lambda>c d. case vel newChild' of
                                      None \<Rightarrow> Inl TypeError
                                    | Some ne \<Rightarrow> insertBefore c ne a d) d1 of
                        Inl err \<Rightarrow> Inl err
                      | Inr d2 \<Rightarrow>
                          keyed_insert rest (newChildren[newIndex := newChild'])
                            newIndices container d2)
                 | None \<Rightarrow>
                     keyed_insert rest (newChildren[newIndex := newChild']) newIndices container d1))
      else keyed_insert rest newChildren newIndices container d)"

text \<open>
  \<open>patch\<close> and the child algorithms. \<open>unkeyed_common\<close> is the loop over the shared
  prefix and \<open>keyed_scan\<close> the loop over the old children (step 2). In the branch for
  different kinds a descriptor whose \<open>el\<close> is \<open>null\<close>, or whose node has no parent,
  fails at \<open>oldVnode.el.parentNode\<close> or \<open>parent.removeChild\<close>. In the branch for equal
  kinds a \<open>null\<close> \<open>el\<close> is passed on, and fails only where a method is called on it.
\<close>

function (sequential)
    patch :: "vnode \<Rightarrow> vnode \<Rightarrow> dom \<Rightarrow> error + (vnode \<times> dom)"
and patchChildren :: "vnode list \<Rightarrow> vnode list \<Rightarrow> nat option \<Rightarrow> dom \<Rightarrow> error + (vnode list \<times> dom)"
and patchUnkeyedChildren :: "vnode list \<Rightarrow> vnode list \<Rightarrow> nat option \<Rightarrow> dom \<Rightarrow> error + (vnode list \<times> dom)"
and unkeyed_common :: "nat \<Rightarrow> vnode list \<Rightarrow> vnode list \<Rightarrow> nat option \<Rightarrow> dom \<Rightarrow> error + (vnode list \<times> dom)"
and patchKeyedChildren :: "vnode list \<Rightarrow> vnode list \<Rightarrow> nat option \<Rightarrow> dom \<Rightarrow> error + (vnode list \<times> dom)"
and keyed_scan :: "nat \<Rightarrow> vnode list \<Rightarrow> (jsval \<Rightarrow> nat option) \<Rightarrow> (nat \<Rightarrow> nat option) \<Rightarrow> nat list \<Rightarrow>
    vnode list \<Rightarrow> nat option \<Rightarrow> dom \<Rightarrow> error + ((nat \<Rightarrow> nat option) \<times> nat list \<times> vnode list \<times> dom)"
where
  "patch (VNode otag oprops ochildren okey oel) (VNode ntag nprops nchildren nkey nel) d =
     (if otag \<noteq> ntag then
        (case oel of
           None \<Rightarrow> Inl TypeError
         | Some e \<Rightarrow>
             (case parentNode d e of
                None \<Rightarrow> Inl TypeError
              | Some parent \<Rightarrow>
                  (let nextSib = nextSibling d e
                   in case removeChild parent e d of
                        Inl err \<Rightarrow> Inl err
                      | Inr d1 \<Rightarrow>
                          (case mount (VNode ntag nprops nchildren nkey nel) (Some parent) d1 of
                             Inl err \<Rightarrow> Inl err
                           | Inr (new', d2) \<Rightarrow>
                               (case vel new' of
                                  None \<Rightarrow> Inl TypeError
                                | Some ne \<Rightarrow>
                                    (case nextSib of
                                       Some sib \<Rightarrow>
                                         (case insertBefore parent ne sib d2 of
                                            Inl err \<Rightarrow> Inl err
                                          | Inr d3 \<Rightarrow> Inr (new', d3))
                                     | None \<Rightarrow> Inr (new', appendChild parent ne d2)))))))
      else
        (case patchProps oel oprops nprops d of
           Inl err \<Rightarrow> Inl err
         | Inr d1 \<Rightarrow>
             (case patchChildren ochildren nchildren oel d1 of
                Inl err \<Rightarrow> Inl err
              | Inr (nchildren', d2) \<Rightarrow> Inr (VNode ntag nprops nchildren' nkey oel, d2))))"
| "patch old new d = Inl TypeError"
| "patchChildren oldChildren newChildren container d =
     (if hasKeyedChildren newChildren
      then patchKeyedChildren oldChildren newChildren container d
      else patchUnkeyedChildren oldChildren newChildren container d)"
| "patchUnkeyedChildren oldChildren newChildren container d =
     (let oldLength = length oldChildren; newLength = length newChildren;
          commonLength = min oldLength newLength
      in case unkeyed_common 0 oldChildren newChildren container d of
           Inl err \<Rightarrow> Inl err
         | Inr (common', d1) \<Rightarrow>
             (case (if newLength > oldLength
                    then mount_all (drop commonLength newChildren) container d1
                    else Inr ([], d1)) of
                Inl err \<Rightarrow> Inl err
              | Inr (extra', d2) \<Rightarrow>
                  (case (if oldLength > newLength
                         then unkeyed_remove (rev [commonLength ..< oldLength]) oldChildren container d2
                         else Inr d2) of
                     Inl err \<Rightarrow> Inl err
                   | Inr d3 \<Rightarrow> Inr (common' @ extra', d3))))"
| "unkeyed_common i (VText a # olds) (VText b # news) container d =
     (if a \<noteq> b then
        (case call container
                (\<lambda>c d. case nth_opt (childNodes d c) i of
                         None \<Rightarrow> Inl TypeError
                       | Some textNode \<Rightarrow> Inr (set_textContent textNode b d)) d of
           Inl err \<Rightarrow> Inl err
         | Inr d1 \<Rightarrow>
             (case unkeyed_common (Suc i) olds news container d1 of
                Inl err \<Rightarrow> Inl err
              | Inr (news', d2) \<Rightarrow> Inr (VText b # news', d2)))
      else
        (case unkeyed_common (Suc i) olds news container d of
           Inl err \<Rightarrow> Inl err
         | Inr (news', d2) \<Rightarrow> Inr (VText b # news', d2)))"
| "unkeyed_common i (VNode otag oprops ochildren okey oel # olds)
       (VNode ntag nprops nchildren nkey nel # news) container d =
     (case patch (VNode otag oprops ochildren okey oel) (VNode ntag nprops nchildren nkey nel) d of
        Inl err \<Rightarrow> Inl err
      | Inr (new', d1) \<Rightarrow>
          (case unkeyed_common (Suc i) olds news container d1 of
             Inl err \<Rightarrow> Inl err
           | Inr (news', d2) \<Rightarrow> Inr (new' # news', d2)))"
| "unkeyed_common i (oldChild # olds) (newChild # news) container d =
     (case remove_old oldChild container i d of
        Inl err \<Rightarrow> Inl err
      | Inr d0 \<Rightarrow>
          (case mount newChild container d0 of
             Inl err \<Rightarrow> Inl err
           | Inr (new', d1) \<Rightarrow>
               (case unkeyed_common (Suc i) olds news container d1 of
                  Inl err \<Rightarrow> Inl err
                | Inr (news', d2) \<Rightarrow> Inr (new' # news', d2))))"
| "unkeyed_common i olds news container d = Inr ([], d)"
| "patchKeyedChildren oldChildren newChildren container d =
     (case keyed_scan 0 oldChildren (keyToNewIndexMap 0 newChildren Map.empty) Map.empty []
             newChildren container d of
        Inl err \<Rightarrow> Inl err
      | Inr (o2n, newIndices, newChildren1, d1) \<Rightarrow>
          (case keyed_move (rev [0 ..< length oldChildren]) oldChildren o2n newChildren1
                  newIndices (- 1) container d1 of
             Inl err \<Rightarrow> Inl err
           | Inr d2 \<Rightarrow>
               keyed_insert [0 ..< length newChildren1] newChildren1 newIndices container d2))"
| "keyed_scan oldIndex [] k2n o2n newIndices newChildren container d =
     Inr (o2n, newIndices, newChildren, d)"
| "keyed_scan oldIndex (VText s # olds) k2n o2n newIndices newChildren container d =
     keyed_scan (Suc oldIndex) olds k2n o2n newIndices newChildren container d"
| "keyed_scan oldIndex (VNode otag oprops ochildren okey oel # olds) k2n o2n newIndices
       newChildren container d =
     (if okey \<noteq> Undefined then
        (case k2n okey of
           Some newIndex \<Rightarrow>
             (if newIndex < length newChildren then
                (case patch (VNode otag oprops ochildren okey oel) (newChildren ! newIndex) d of
                   Inl err \<Rightarrow> Inl err
                 | Inr (new', d1) \<Rightarrow>
                     keyed_scan (Suc oldIndex) olds k2n (o2n(oldIndex \<mapsto> newIndex))
                       (List.insert newIndex newIndices) (newChildren[newIndex := new'])
                       container d1)
              else Inl TypeError)
         | None \<Rightarrow>
             (case call container
                     (\<lambda>c d. case oel of
                              None \<Rightarrow> Inl TypeError
                            | Some x \<Rightarrow> removeChild c x d) d of
                Inl err \<Rightarrow> Inl err
              | Inr d1 \<Rightarrow>
                  keyed_scan (Suc oldIndex) olds k2n o2n newIndices newChildren container d1))
      else keyed_scan (Suc oldIndex) olds k2n o2n newIndices newChildren container d)"
  by pat_completeness auto

termination
  by (relation "measure (\<lambda>x. case x of
            Inl (Inl (old, _)) \<Rightarrow> 4 * size old
          | Inl (Inr (Inl (olds, _))) \<Rightarrow> 4 * size_list size olds + 3
          | Inl (Inr (Inr (olds, _))) \<Rightarrow> 4 * size_list size olds + 2
          | Inr (Inl (_, olds, _)) \<Rightarrow> 4 * size_list size olds + 1
          | Inr (Inr (Inl (olds, _))) \<Rightarrow> 4 * size_list size olds + 2
          | Inr (Inr (Inr (_, olds, _))) \<Rightarrow> 4 * size_list size olds + 1)") auto

text \<open>\<open>render\<close>; \<open>prev\<close> is \<open>container._vnode\<close>, and the result becomes its new value.\<close>

definition render :: "vnode \<Rightarrow> nat \<Rightarrow> vnode option \<Rightarrow> dom \<Rightarrow> error + (vnode \<times> dom)" where
  "render vnode container prev d =
     (case prev of Some old \<Rightarrow> patch old vnode d | None \<Rightarrow> mount vnode (Some container) d)"

text \<open>A document that holds one empty container element, node 0.\<close>

definition root_dom :: dom where
  "root_dom = alloc (new_element ''div'') \<lparr>nodes = [], trace = []\<rparr>"

subsection \<open>Example trees\<close>

text \<open>
  Two renders into the container: the first mounts \<open>old\<close>, the second reconciles
  \<open>new\<close> against it. The result holds both descriptor trees as the code leaves them
  and the document after each render.
\<close>

definition render_twice :: "vnode \<Rightarrow> vnode \<Rightarrow> error + (vnode \<times> vnode \<times> dom \<times> dom)" where
  "render_twice old new =
     (case render old 0 None root_dom of
        Inl e \<Rightarrow> Inl e
      | Inr (old', d1) \<Rightarrow>
          (case render new 0 (Some old') d1 of
             Inl e \<Rightarrow> Inl e
           | Inr (new', d2) \<Rightarrow> Inr (old', new', d1, d2)))"

text \<open>The operations the second render performed, and the child order it left in node \<open>n\<close>.\<close>

definition second_ops :: "error + (vnode \<times> vnode \<times> dom \<times> dom) \<Rightarrow> (error + op list)" where
  "second_ops r =
     (case r of Inl e \<Rightarrow> Inl e
      | Inr (old', new', d1, d2) \<Rightarrow> Inr (drop (length (trace d1)) (trace d2)))"

definition final_children :: "nat \<Rightarrow> error + (vnode \<times> vnode \<times> dom \<times> dom) \<Rightarrow> (error + nat list)" where
  "final_children n r =
     (case r of Inl e \<Rightarrow> Inl e | Inr (old', new', d1, d2) \<Rightarrow> Inr (childNodes d2 n))"

definition first_children :: "nat \<Rightarrow> error + (vnode \<times> vnode \<times> dom \<times> dom) \<Rightarrow> (error + nat list)" where
  "first_children n r =
     (case r of Inl e \<Rightarrow> Inl e | Inr (old', new', d1, d2) \<Rightarrow> Inr (childNodes d1 n))"

definition nodes_created :: "error + (vnode \<times> vnode \<times> dom \<times> dom) \<Rightarrow> (error + nat)" where
  "nodes_created r =
     (case r of Inl e \<Rightarrow> Inl e
      | Inr (old', new', d1, d2) \<Rightarrow> Inr (length (nodes d2) - length (nodes d1)))"

text \<open>\<open>h('li', {key: k}, s)\<close> and the lists \<open>[A, B, C]\<close> and \<open>[C, A, B]\<close> with keys 1, 2, 3.\<close>

definition li :: "int \<Rightarrow> string \<Rightarrow> vnode" where
  "li k s = h ''li'' [(''key'', Num k)] (Single (VText s))"

definition old_abc :: vnode where
  "old_abc = h ''ul'' [] (Many [li 1 ''A'', li 2 ''B'', li 3 ''C''])"

definition new_cab :: vnode where
  "new_cab = h ''ul'' [] (Many [li 3 ''C'', li 1 ''A'', li 2 ''B''])"

text \<open>Unkeyed lists of empty \<open>p\<close> elements, and one that ends in a text child.\<close>

definition para :: "string \<Rightarrow> vnode" where
  "para c = h ''p'' [(''class'', Str c)] NoChildren"

definition old_xyz :: vnode where
  "old_xyz = h ''div'' [] (Many [para ''x'', para ''y'', para ''z''])"

definition new_x :: vnode where
  "new_x = h ''div'' [] (Many [para ''x2''])"

definition old_p :: vnode where
  "old_p = h ''div'' [] (Many [para ''x''])"

definition new_p_text :: vnode where
  "new_p_text = h ''div'' [] (Many [para ''x'', VText ''tail''])"

text \<open>The backend call that applies attribute \<open>k\<close> of \<open>props\<close>, and the one that removes it.\<close>

definition apply_op :: "nat \<Rightarrow> (string \<times> jsval) list \<Rightarrow> string \<Rightarrow> op" where
  "apply_op el props k =
     (if startsWith_on k then AddEventListener el (eventName k) (lookup props k)
      else SetAttribute el k (lookup props k))"

definition remove_op :: "nat \<Rightarrow> (string \<times> jsval) list \<Rightarrow> string \<Rightarrow> op" where
  "remove_op el props k =
     (if startsWith_on k then RemoveEventListener el (eventName k) (lookup props k)
      else RemoveAttribute el k)"

text \<open>
  The descriptors that the backend can materialize: valid element and attribute names,
  listeners that the backend accepts, and no string in the place of a descriptor (a
  string among the children becomes a text node).
\<close>

definition attr_ok :: "(string \<times> jsval) list \<Rightarrow> string \<Rightarrow> bool" where
  "attr_ok props k = (if startsWith_on k then listener_arg (lookup props k) else valid_name k)"

fun mountable :: "vnode \<Rightarrow> bool" and mountable_children :: "vnode list \<Rightarrow> bool" where
  "mountable (VText s) = False"
| "mountable (VNode tag props children key el) =
     (valid_name tag \<and> list_all (\<lambda>(k, x). attr_ok props k) props \<and> mountable_children children)"
| "mountable_children [] = True"
| "mountable_children (VText s # rest) = mountable_children rest"
| "mountable_children (VNode tag props children key el # rest) =
     (mountable (VNode tag props children key el) \<and> mountable_children rest)"

text \<open>The facts about \<open>mount\<close> that the claims use.\<close>

definition mounted :: "nat \<Rightarrow> dom \<Rightarrow> dom \<Rightarrow> bool" where
  "mounted c d d' =
     (length (nodes d) < length (nodes d') \<and>
      (\<forall>q. q < length (nodes d) \<longrightarrow>
         childNodes d' q = (if q = c then childNodes d c @ [length (nodes d)] else childNodes d q)) \<and>
      (\<forall>y. y < length (nodes d) \<longrightarrow> parentNode d' y = parentNode d y) \<and>
      parentNode d' (length (nodes d)) = Some c \<and>
      (\<forall>n. n < length (nodes d) \<longrightarrow> is_text d' n = is_text d n \<and> tagOf d' n = tagOf d n) \<and>
      (\<exists>ops. trace d' = trace d @ ops))"

definition grown :: "nat \<Rightarrow> dom \<Rightarrow> dom \<Rightarrow> bool" where
  "grown el d d' =
     (length (nodes d) \<le> length (nodes d') \<and>
      (\<forall>q. q < length (nodes d) \<longrightarrow> q \<noteq> el \<longrightarrow> childNodes d' q = childNodes d q) \<and>
      (\<forall>y. y < length (nodes d) \<longrightarrow> parentNode d' y = parentNode d y) \<and>
      (\<forall>n. n < length (nodes d) \<longrightarrow> is_text d' n = is_text d n \<and> tagOf d' n = tagOf d n) \<and>
      (\<exists>ops. trace d' = trace d @ ops))"

text \<open>The attribute and listener calls leave the tree as it is.\<close>

definition same_tree :: "dom \<Rightarrow> dom \<Rightarrow> bool" where
  "same_tree d d' =
     (length (nodes d') = length (nodes d) \<and>
      (\<forall>q. childNodes d' q = childNodes d q) \<and>
      (\<forall>y. parentNode d' y = parentNode d y) \<and>
      (\<forall>n. is_text d' n = is_text d n \<and> tagOf d' n = tagOf d n))"

definition linked :: "dom \<Rightarrow> bool" where
  "linked d = (\<forall>q y. y \<in> set (childNodes d q) \<longrightarrow> parentNode d y = Some q)"

text \<open>The calls that \<open>patchProps\<close> makes for attribute \<open>k\<close>, in each of its two loops.\<close>

definition new_ops :: "nat \<Rightarrow> (string \<times> jsval) list \<Rightarrow> (string \<times> jsval) list \<Rightarrow> string \<Rightarrow> op list" where
  "new_ops el oldProps newProps k =
     (if lookup oldProps k = lookup newProps k then []
      else if startsWith_on k \<and> truthy (lookup oldProps k)
      then [remove_op el oldProps k, apply_op el newProps k]
      else [apply_op el newProps k])"

definition old_ops :: "nat \<Rightarrow> (string \<times> jsval) list \<Rightarrow> (string \<times> jsval) list \<Rightarrow> string \<Rightarrow> op list" where
  "old_ops el oldProps newProps k =
     (if \<not> key_in k newProps then [remove_op el oldProps k] else [])"



text \<open>
  Where \<open>patch\<close> leaves a replacement node \<open>n\<close> that \<open>mount\<close> has appended to \<open>p\<close>:
  before the former next sibling (the head of \<open>ys\<close>), or last when there was none.
\<close>

definition put_back :: "nat \<Rightarrow> nat \<Rightarrow> nat list \<Rightarrow> dom \<Rightarrow> dom" where
  "put_back p n ys d =
     (case ys of [] \<Rightarrow> appendChild p n d | y # zs \<Rightarrow> do_insertBefore p n y d)"

definition old_mixed :: vnode where
  "old_mixed = h ''div'' [] (Many [h ''p'' [] NoChildren, h ''span'' [] (Single (VText ''x'')),
                                   h ''p'' [] NoChildren])"

definition mixed_dom :: dom where
  "mixed_dom = (case mount old_mixed (Some 0) root_dom of Inr (v, d) \<Rightarrow> d | Inl e \<Rightarrow> root_dom)"

section \<open>Properties of the reactive system\<close>

lemma track_simps:
  "runs (track t k s) = runs s"
  "store (track t k s) = store s"
  "activeEffect (track t k s) = activeEffect s"
  "events (track t k s) = events s"
  by (auto simp: track_def Let_def split: option.splits)

lemma active_restored:
  "exec n P cs s = Some (out, s') \<Longrightarrow> activeEffect s' = activeEffect s"
  "reactive_set n P t k v s = Some (out, s') \<Longrightarrow> activeEffect s' = activeEffect s"
  "trigger n P t k s = Some (out, s') \<Longrightarrow> activeEffect s' = activeEffect s"
  "forEach n P t k i s = Some (out, s') \<Longrightarrow> activeEffect s' = activeEffect s"
  "effectFn n P e s = Some (out, s') \<Longrightarrow> activeEffect s' = activeEffect s"
proof (induction n P cs s and n P t k v s and n P t k s and n P t k i s and n P e s
       arbitrary: out s' and out s' and out s' and out s' and out s'
       rule: exec_reactive_set_trigger_forEach_effectFn.induct)
  case (1 P cs s) then show ?case by simp
next
  case (2 n P s) then show ?case by simp
next
  case (3 n P t k cs s)
  from "3.prems" have "exec n P cs (snd (reactive_get t k s)) = Some (out, s')" by simp
  from "3.IH"[OF this] show ?case by (simp add: reactive_get_def track_simps)
next
  case (4 n P t k v cs s)
  show ?case
  proof (cases "reactive_set n P t k v s")
    case None
    with "4.prems" show ?thesis by simp
  next
    case (Some r)
    obtain o1 s1 where r: "r = (o1, s1)" by (cases r)
    have a1: "activeEffect s1 = activeEffect s"
      using "4.IH"(1) Some r by blast
    show ?thesis
    proof (cases o1)
      case Normal
      with "4.prems" Some r have "exec n P cs s1 = Some (out, s')" by simp
      from "4.IH"(2)[OF Some r[symmetric] Normal this] a1 show ?thesis by simp
    next
      case Threw
      with "4.prems" Some r a1 show ?thesis by simp
    qed
  qed
next
  case (5 n P cs s) then show ?case by simp
next
  case (6 n P t k v body cs s)
  obtain x s1 where g: "reactive_get t k s = (x, s1)" by (cases "reactive_get t k s")
  then have a0: "activeEffect s1 = activeEffect s"
    by (auto simp: reactive_get_def track_simps)
  show ?case
  proof (cases "x = v")
    case True
    show ?thesis
    proof (cases "exec n P body s1")
      case None
      with "6.prems" g True show ?thesis by simp
    next
      case (Some r)
      obtain o1 s2 where r: "r = (o1, s2)" by (cases r)
      have a1: "activeEffect s2 = activeEffect s1"
        using "6.IH"(1)[OF refl g[symmetric] True] Some r by blast
      show ?thesis
      proof (cases o1)
        case Normal
        with "6.prems" g True Some r have "exec n P cs s2 = Some (out, s')" by simp
        from "6.IH"(2)[OF refl g[symmetric] True Some r[symmetric] Normal this] a1 a0 show ?thesis by simp
      next
        case Threw
        with "6.prems" g True Some r a1 a0 show ?thesis by simp
      qed
    qed
  next
    case False
    with "6.prems" g have "exec n P cs s1 = Some (out, s')" by simp
    from "6.IH"(3)[OF refl g[symmetric] False this] a0 show ?thesis by simp
  qed
next
  case 7 then show ?case by simp
next
  case (8 n P t k v s)
  from "8.prems" have "trigger n P t k
      (s\<lparr>store := (store s)((t, k) := v), events := events s @ [Wrote t k v]\<rparr>) = Some (out, s')"
    by simp
  from "8.IH"[OF this] show ?case by simp
next
  case 9 then show ?case by simp
next
  case (10 n P t k s)
  show ?case
  proof (cases "targetMap s t")
    case None
    with "10.prems" show ?thesis by simp
  next
    case (Some depsMap)
    show ?thesis
    proof (cases "depsMap k")
      case None
      with "10.prems" Some show ?thesis by simp
    next
      case (Some deps)
      with "10.prems" \<open>targetMap s t = Some depsMap\<close>
      have "forEach n P t k 0 s = Some (out, s')" by simp
      from "10.IH"[OF \<open>targetMap s t = Some depsMap\<close> Some this] show ?thesis .
    qed
  qed
next
  case 11 then show ?case by simp
next
  case (12 n P t k i s)
  show ?case
  proof (cases "deps_of s t k")
    case None
    with "12.prems" show ?thesis by simp
  next
    case (Some deps)
    show ?thesis
    proof (cases "i < length deps")
      case False
      with "12.prems" Some show ?thesis by simp
    next
      case True
      show ?thesis
      proof (cases "effectFn n P (deps ! i) s")
        case None
        with "12.prems" Some True show ?thesis by simp
      next
        case (Some r)
        obtain o1 s1 where r: "r = (o1, s1)" by (cases r)
        have a1: "activeEffect s1 = activeEffect s"
          using "12.IH"(1)[OF \<open>deps_of s t k = Some deps\<close> True] Some r by blast
        show ?thesis
        proof (cases o1)
          case Normal
          with "12.prems" \<open>deps_of s t k = Some deps\<close> True Some r
          have "forEach n P t k (Suc i) s1 = Some (out, s')" by simp
          from "12.IH"(2)[OF \<open>deps_of s t k = Some deps\<close> True Some r[symmetric] Normal this] a1
          show ?thesis by simp
        next
          case Threw
          with "12.prems" \<open>deps_of s t k = Some deps\<close> True Some r a1 show ?thesis by simp
        qed
      qed
    qed
  qed
next
  case 13 then show ?case by simp
next
  case (14 n P e s)
  from "14.prems" show ?case by (auto simp: Let_def split: option.splits)
qed

lemma cost_list_pos: "0 < cost_list cs"
  by (induction cs) auto

lemma deps_of_upd [simp]:
  "deps_of (s\<lparr>activeEffect := a\<rparr>) = deps_of s"
  "deps_of (s\<lparr>runs := r\<rparr>) = deps_of s"
  "deps_of (s\<lparr>lastReads := l\<rparr>) = deps_of s"
  "deps_of (s\<lparr>store := st\<rparr>) = deps_of s"
  "deps_of (s\<lparr>events := ev\<rparr>) = deps_of s"
  by (simp_all add: deps_of_def fun_eq_iff)

lemma registered_upd [simp]:
  "registered (s\<lparr>activeEffect := a\<rparr>) = registered s"
  "registered (s\<lparr>runs := r\<rparr>) = registered s"
  "registered (s\<lparr>lastReads := l\<rparr>) = registered s"
  "registered (s\<lparr>store := st\<rparr>) = registered s"
  "registered (s\<lparr>events := ev\<rparr>) = registered s"
  by (simp_all add: registered_def fun_eq_iff)

lemma registered_track:
  "registered (track t k s) t' k' =
     (case activeEffect s of
        None \<Rightarrow> registered s t' k'
      | Some e \<Rightarrow> if t' = t \<and> k' = k then set_add e (registered s t k) else registered s t' k')"
  by (auto simp: track_def registered_def deps_of_def Let_def split: option.splits)

lemma deps_of_track_member:
  "activeEffect s = Some e \<Longrightarrow> deps_of s t' k' = Some ds \<Longrightarrow> e \<in> set ds \<Longrightarrow>
   deps_of (track t k s) t' k' = Some ds"
  by (auto simp: track_def deps_of_def set_add_def Let_def split: option.splits)

lemma deps_kept_refl: "deps_kept e s s"
  by (simp add: deps_kept_def)

lemma deps_kept_trans: "deps_kept e s s1 \<Longrightarrow> deps_kept e s1 s2 \<Longrightarrow> deps_kept e s s2"
  by (simp add: deps_kept_def)

lemma deps_kept_track: "activeEffect s = Some e \<Longrightarrow> deps_kept e s (track t k s)"
  by (simp add: deps_kept_def deps_of_track_member)

lemma unobserved_track:
  "unobserved s W \<Longrightarrow> (t, k) \<notin> W \<Longrightarrow> unobserved (track t k s) W"
  by (auto simp: unobserved_def registered_track split: option.splits)

text \<open>A write to a field that no task is registered on starts nothing.\<close>

lemma reactive_set_unobserved:
  assumes "registered s t k = []" and "3 \<le> n"
  shows "reactive_set n P t k v s
           = Some (Normal, s\<lparr>store := (store s)((t, k) := v), events := events s @ [Wrote t k v]\<rparr>)"
proof -
  from assms(2) obtain m where n: "n = Suc (Suc (Suc m))"
    by (cases n; cases "n - 1"; cases "n - 2") auto
  let ?s0 = "s\<lparr>store := (store s)((t, k) := v), events := events s @ [Wrote t k v]\<rparr>"
  have d: "deps_of ?s0 t k = None \<or> deps_of ?s0 t k = Some []"
    using assms(1) by (auto simp: registered_def split: option.splits)
  have f: "forEach (Suc m) P t k 0 ?s0 = Some (Normal, ?s0)"
    using d by auto
  have "trigger (Suc (Suc m)) P t k ?s0 = Some (Normal, ?s0)"
    using d f by (auto simp: deps_of_def split: option.splits)
  then show ?thesis by (simp add: n)
qed

lemma exec_quiet:
  "writes_in_list W cs \<Longrightarrow> reads_out_list W cs \<Longrightarrow> unobserved s W \<Longrightarrow> cost_list cs \<le> n \<Longrightarrow>
   activeEffect s = Some e \<Longrightarrow>
   \<exists>out s'. exec n P cs s = Some (out, s') \<and> runs s' = runs s
      \<and> activeEffect s' = Some e \<and> deps_kept e s s' \<and> unobserved s' W"
proof (induction n arbitrary: cs s)
  case 0
  with cost_list_pos[of cs] show ?case by simp
next
  case (Suc n)
  show ?case
  proof (cases cs)
    case Nil
    with Suc.prems show ?thesis by (simp add: deps_kept_def)
  next
    case (Cons c cs')
    have pos: "0 < cost_list cs'" by (rule cost_list_pos)
    show ?thesis
    proof (cases c)
      case (Read t k)
      let ?s1 = "track t k s"
      from Suc.prems Cons Read have wi: "writes_in_list W cs'" and ro: "reads_out_list W cs'"
        and c: "cost_list cs' \<le> n" and tk: "(t, k) \<notin> W"
        by simp_all
      have a: "activeEffect ?s1 = Some e" using Suc.prems(5) by (simp add: track_simps)
      have u: "unobserved ?s1 W" using Suc.prems(3) tk by (rule unobserved_track)
      from Suc.IH[OF wi ro u c a] obtain out s' where
        r: "exec n P cs' ?s1 = Some (out, s')" "runs s' = runs ?s1"
           "activeEffect s' = Some e" "deps_kept e ?s1 s'" "unobserved s' W" by blast
      have "deps_kept e s s'"
        using deps_kept_track[OF Suc.prems(5)] r(4) by (rule deps_kept_trans)
      with r Cons Read show ?thesis by (simp add: reactive_get_def track_simps)
    next
      case (Write t k v)
      let ?s1 = "s\<lparr>store := (store s)((t, k) := v), events := events s @ [Wrote t k v]\<rparr>"
      from Suc.prems Cons Write have wi: "writes_in_list W cs'" and ro: "reads_out_list W cs'"
        and c: "cost_list cs' \<le> n" and n3: "3 \<le> n" and tk: "(t, k) \<in> W"
        using pos by simp_all
      have reg: "registered s t k = []" using Suc.prems(3) tk by (auto simp: unobserved_def)
      have w: "reactive_set n P t k v s = Some (Normal, ?s1)"
        using reg n3 by (rule reactive_set_unobserved)
      have a: "activeEffect ?s1 = Some e" using Suc.prems(5) by simp
      have u: "unobserved ?s1 W" using Suc.prems(3) by (simp add: unobserved_def)
      from Suc.IH[OF wi ro u c a] obtain out s' where
        r: "exec n P cs' ?s1 = Some (out, s')" "runs s' = runs ?s1"
           "activeEffect s' = Some e" "deps_kept e ?s1 s'" "unobserved s' W" by blast
      have "deps_kept e s s'" using r(4) by (simp add: deps_kept_def)
      with r w Cons Write show ?thesis by simp
    next
      case Throw
      with Suc.prems Cons show ?thesis by (simp add: deps_kept_def)
    next
      case (IfEq t k v body)
      let ?s1 = "track t k s"
      from Suc.prems Cons IfEq pos have wi: "writes_in_list W cs'" and ro: "reads_out_list W cs'"
        and c: "cost_list cs' \<le> n" and wib: "writes_in_list W body"
        and rob: "reads_out_list W body" and cb: "cost_list body \<le> n" and tk: "(t, k) \<notin> W"
        by simp_all
      have a: "activeEffect ?s1 = Some e" using Suc.prems(5) by (simp add: track_simps)
      have u: "unobserved ?s1 W" using Suc.prems(3) tk by (rule unobserved_track)
      have k1: "deps_kept e s ?s1" by (rule deps_kept_track[OF Suc.prems(5)])
      show ?thesis
      proof (cases "store s (t, k) = v")
        case False
        from Suc.IH[OF wi ro u c a] obtain out s' where
          r: "exec n P cs' ?s1 = Some (out, s')" "runs s' = runs ?s1"
             "activeEffect s' = Some e" "deps_kept e ?s1 s'" "unobserved s' W" by blast
        have "deps_kept e s s'" using k1 r(4) by (rule deps_kept_trans)
        with r Cons IfEq False show ?thesis by (simp add: reactive_get_def track_simps)
      next
        case True
        from Suc.IH[OF wib rob u cb a] obtain o1 s2 where
          r1: "exec n P body ?s1 = Some (o1, s2)" "runs s2 = runs ?s1"
             "activeEffect s2 = Some e" "deps_kept e ?s1 s2" "unobserved s2 W" by blast
        have k2: "deps_kept e s s2" using k1 r1(4) by (rule deps_kept_trans)
        show ?thesis
        proof (cases o1)
          case Threw
          with r1 k2 Cons IfEq True show ?thesis by (simp add: reactive_get_def track_simps)
        next
          case Normal
          from Suc.IH[OF wi ro r1(5) c r1(3)] obtain out s' where
            r: "exec n P cs' s2 = Some (out, s')" "runs s' = runs s2"
               "activeEffect s' = Some e" "deps_kept e s2 s'" "unobserved s' W" by blast
          have "deps_kept e s s'" using k2 r(4) by (rule deps_kept_trans)
          with r r1 Normal Cons IfEq True show ?thesis
            by (simp add: reactive_get_def track_simps)
        qed
      qed
    qed
  qed
qed

lemma effectFn_quiet:
  assumes "writes_in_list W (P e)" "reads_out_list W (P e)" "unobserved s W"
      and "cost_list (P e) < n"
  shows "\<exists>out s'. effectFn n P e s = Some (out, s') \<and> runs s' = (runs s)(e := Suc (runs s e))
      \<and> activeEffect s' = activeEffect s \<and> deps_kept e s s' \<and> unobserved s' W"
proof -
  from assms(4) obtain m where n: "n = Suc m" and c: "cost_list (P e) \<le> m"
    by (cases n) auto
  let ?s1 = "s\<lparr>activeEffect := Some e, runs := (runs s)(e := Suc (runs s e)),
                 lastReads := (lastReads s)(e := []), events := events s @ [Started e]\<rparr>"
  have a: "activeEffect ?s1 = Some e" by simp
  have u: "unobserved ?s1 W" using assms(3) by (simp add: unobserved_def)
  from exec_quiet[OF assms(1,2) u c a, of P] obtain out s2 where
    r: "exec m P (P e) ?s1 = Some (out, s2)" "runs s2 = runs ?s1"
       "activeEffect s2 = Some e" "deps_kept e ?s1 s2" "unobserved s2 W" by blast
  have "deps_kept e s (s2\<lparr>activeEffect := activeEffect s\<rparr>)"
    using r(4) by (simp add: deps_kept_def)
  moreover have "unobserved (s2\<lparr>activeEffect := activeEffect s\<rparr>) W"
    using r(5) by (simp add: unobserved_def)
  ultimately show ?thesis using r n by (simp add: Let_def)
qed

lemma forEach_quiet:
  "deps_of s t k = Some ds \<Longrightarrow>
   \<forall>U\<in>set ds. writes_in_list W (P U) \<and> reads_out_list W (P U) \<Longrightarrow> unobserved s W \<Longrightarrow>
   fuel_for P (drop i ds) < n \<Longrightarrow>
   \<exists>out s'. forEach n P t k i s = Some (out, s')"
proof (induction n arbitrary: i s)
  case 0
  then show ?case by simp
next
  case (Suc n)
  show ?case
  proof (cases "i < length ds")
    case False
    with Suc.prems show ?thesis by simp
  next
    case True
    let ?U = "ds ! i"
    have U: "?U \<in> set ds" using True by simp
    have d: "drop i ds = ?U # drop (Suc i) ds" using True by (simp add: Cons_nth_drop_Suc)
    from Suc.prems(4) d have c1: "cost_list (P ?U) < n" and c2: "fuel_for P (drop (Suc i) ds) < n"
      by (simp_all add: fuel_for_def)
    from Suc.prems(2) U have q: "writes_in_list W (P ?U)" "reads_out_list W (P ?U)" by blast+
    from effectFn_quiet[where P=P and e="?U" and n=n and s=s, OF q Suc.prems(3) c1] obtain o1 s1 where
      r1: "effectFn n P ?U s = Some (o1, s1)" "deps_kept ?U s s1" "unobserved s1 W" by blast
    have d1: "deps_of s1 t k = Some ds"
      using r1(2) Suc.prems(1) U by (simp add: deps_kept_def)
    show ?thesis
    proof (cases o1)
      case Threw
      with r1 Suc.prems(1) True show ?thesis by simp
    next
      case Normal
      from Suc.IH[OF d1 Suc.prems(2) r1(3) c2] obtain out s' where
        r: "forEach n P t k (Suc i) s1 = Some (out, s')" by blast
      with r1 Normal Suc.prems(1) True show ?thesis by simp
    qed
  qed
qed

text \<open>A write ends when the tasks registered on the field start no further task.\<close>

lemma reactive_set_ends:
  assumes "\<forall>U\<in>set (registered s t g). writes_in_list W (P U) \<and> reads_out_list W (P U)"
      and "unobserved s W"
      and "fuel_for P (registered s t g) + 2 < n"
  shows "\<exists>out s'. reactive_set n P t g v s = Some (out, s')"
proof -
  from assms(3) obtain m where n: "n = Suc (Suc m)" and m: "fuel_for P (registered s t g) < m"
    by (cases n; cases "n - 1") auto
  let ?s0 = "s\<lparr>store := (store s)((t, g) := v), events := events s @ [Wrote t g v]\<rparr>"
  show ?thesis
  proof (cases "deps_of s t g")
    case None
    then show ?thesis using n by (auto simp: deps_of_def split: option.splits)
  next
    case (Some ds)
    then have reg: "registered s t g = ds" by (simp add: registered_def)
    have d0: "deps_of ?s0 t g = Some ds" using Some by simp
    have u0: "unobserved ?s0 W" using assms(2) by (simp add: unobserved_def)
    from m reg have f: "fuel_for P (drop 0 ds) < m" by simp
    from forEach_quiet[OF d0 _ u0 f] assms(1) reg obtain out s' where
      r: "forEach m P t g 0 ?s0 = Some (out, s')" by blast
    from Some have "\<exists>dm. targetMap s t = Some dm \<and> dm g = Some ds"
      by (auto simp: deps_of_def split: option.splits)
    with r n show ?thesis by auto
  qed
qed

lemma grows_refl: "grows W R A s s"
  unfolding grows_def by (intro allI exI[of _ "[]"]) simp

lemma grows_same: "registered s' = registered s \<Longrightarrow> grows W R A s s'"
  unfolding grows_def by (intro allI exI[of _ "[]"]) simp

lemma grows_trans:
  assumes "grows W R A s s1" and "grows W R A s1 s2"
  shows "grows W R A s s2"
  unfolding grows_def
proof (intro allI)
  fix t k
  from assms(1)[unfolded grows_def, rule_format, of t k] obtain m1 where
    1: "registered s1 t k = registered s t k @ m1" "set m1 \<subseteq> A" "(t, k) \<in> W \<longrightarrow> set m1 \<subseteq> R"
       "set m1 \<inter> set (registered s t k) = {}" by blast
  from assms(2)[unfolded grows_def, rule_format, of t k] obtain m2 where
    2: "registered s2 t k = registered s1 t k @ m2" "set m2 \<subseteq> A" "(t, k) \<in> W \<longrightarrow> set m2 \<subseteq> R"
       "set m2 \<inter> set (registered s1 t k) = {}" by blast
  show "\<exists>more. registered s2 t k = registered s t k @ more \<and> set more \<subseteq> A \<and>
          ((t, k) \<in> W \<longrightarrow> set more \<subseteq> R) \<and> set more \<inter> set (registered s t k) = {}"
    by (rule exI[of _ "m1 @ m2"]) (use 1 2 in auto)
qed

lemma grows_mono:
  assumes "A \<subseteq> A'" and "grows W R A s s'"
  shows "grows W R A' s s'"
  unfolding grows_def
proof (intro allI)
  fix t k
  from assms(2)[unfolded grows_def, rule_format, of t k] obtain m1 where
    1: "registered s' t k = registered s t k @ m1" "set m1 \<subseteq> A" "(t, k) \<in> W \<longrightarrow> set m1 \<subseteq> R"
       "set m1 \<inter> set (registered s t k) = {}" by blast
  show "\<exists>more. registered s' t k = registered s t k @ more \<and> set more \<subseteq> A' \<and>
          ((t, k) \<in> W \<longrightarrow> set more \<subseteq> R) \<and> set more \<inter> set (registered s t k) = {}"
    by (rule exI[of _ m1]) (use 1 assms(1) in auto)
qed

lemma grows_track:
  assumes "activeEffect s = Some e" and "e \<in> A" and "(t, k) \<in> W \<longrightarrow> e \<in> R"
  shows "grows W R A s (track t k s)"
  unfolding grows_def
proof (intro allI)
  fix t' k'
  show "\<exists>more. registered (track t k s) t' k' = registered s t' k' @ more \<and> set more \<subseteq> A \<and>
          ((t', k') \<in> W \<longrightarrow> set more \<subseteq> R) \<and> set more \<inter> set (registered s t' k') = {}"
  proof (cases "t' = t \<and> k' = k \<and> e \<notin> set (registered s t k)")
    case True
    then show ?thesis using assms
      by (intro exI[of _ "[e]"]) (simp add: registered_track set_add_def)
  next
    case False
    then show ?thesis using assms
      by (intro exI[of _ "[]"]) (auto simp: registered_track set_add_def)
  qed
qed

lemma observers_in_grows:
  assumes "observers_in s W R" and "grows W R A s s'"
  shows "observers_in s' W R"
proof -
  have "set (registered s' t k) \<subseteq> R" if tk: "(t, k) \<in> W" for t k
  proof -
    from assms(2)[unfolded grows_def, rule_format, of t k] tk obtain m1 where
      1: "registered s' t k = registered s t k @ m1" "set m1 \<subseteq> R" by blast
    from assms(1) tk have "set (registered s t k) \<subseteq> R" by (auto simp: observers_in_def)
    with 1 show ?thesis by simp
  qed
  then show ?thesis by (auto simp: observers_in_def)
qed

lemma step_refl: "step W R A s s"
  by (simp add: step_def grows_refl)

lemma step_trans:
  assumes "step W R A s s1" and "step W R A s1 s2"
  shows "step W R A s s2"
proof -
  have g: "grows W R A s s2" using assms by (auto simp: step_def intro: grows_trans)
  from assms(1) obtain e1 where e1: "events s1 = events s @ e1" "\<forall>e. Started e \<in> set e1 \<longrightarrow> e \<in> R"
    "\<forall>t k v. Wrote t k v \<in> set e1 \<longrightarrow> (t, k) \<in> W" unfolding step_def by blast
  from assms(2) obtain e2 where e2: "events s2 = events s1 @ e2" "\<forall>e. Started e \<in> set e2 \<longrightarrow> e \<in> R"
    "\<forall>t k v. Wrote t k v \<in> set e2 \<longrightarrow> (t, k) \<in> W" unfolding step_def by blast
  have "events s2 = events s @ (e1 @ e2)" using e1(1) e2(1) by simp
  moreover have "\<forall>e. Started e \<in> set (e1 @ e2) \<longrightarrow> e \<in> R"
    using e1(2) e2(2) by (metis Un_iff set_append)
  moreover have "\<forall>t k v. Wrote t k v \<in> set (e1 @ e2) \<longrightarrow> (t, k) \<in> W"
    using e1(3) e2(3) by (metis Un_iff set_append)
  ultimately have ev: "\<exists>ev. events s2 = events s @ ev \<and> (\<forall>e. Started e \<in> set ev \<longrightarrow> e \<in> R) \<and>
            (\<forall>t k v. Wrote t k v \<in> set ev \<longrightarrow> (t, k) \<in> W)"
    by blast
  have ru: "\<forall>U. U \<notin> R \<longrightarrow> runs s2 U = runs s U" using assms by (simp add: step_def)
  have st: "\<forall>tk. tk \<notin> W \<longrightarrow> store s2 tk = store s tk" using assms by (simp add: step_def)
  show ?thesis unfolding step_def using g ev ru st by blast
qed

lemma step_mono: "A \<subseteq> A' \<Longrightarrow> step W R A s s' \<Longrightarrow> step W R A' s s'"
  by (auto simp: step_def intro: grows_mono)

lemma step_track:
  "activeEffect s = Some e \<Longrightarrow> e \<in> A \<Longrightarrow> ((t, k) \<in> W \<longrightarrow> e \<in> R) \<Longrightarrow> step W R A s (track t k s)"
  by (simp add: step_def grows_track track_simps)

lemma step_write:
  "(t, k) \<in> W \<Longrightarrow>
   step W R A s (s\<lparr>store := (store s)((t, k) := v), events := events s @ [Wrote t k v]\<rparr>)"
  by (auto simp: step_def grows_same)

lemma step_start:
  "e \<in> R \<Longrightarrow>
   step W R A s (s\<lparr>activeEffect := Some e, runs := (runs s)(e := Suc (runs s e)),
                   lastReads := (lastReads s)(e := []), events := events s @ [Started e]\<rparr>)"
  by (auto simp: step_def grows_same)

lemma step_active: "step W R A s (s\<lparr>activeEffect := a\<rparr>)"
  by (simp add: step_def grows_same)

lemma observers_in_step: "observers_in s W R \<Longrightarrow> step W R A s s' \<Longrightarrow> observers_in s' W R"
  by (auto simp: step_def intro: observers_in_grows)

text \<open>
  The tasks a write can reach: when every task registered on a field of \<open>W\<close> is in \<open>R\<close>
  and the tasks of \<open>R\<close> write only fields of \<open>W\<close>, then whatever a write to a field of
  \<open>W\<close> sets off, it starts only tasks of \<open>R\<close> and writes only fields of \<open>W\<close>.
\<close>

lemma reach:
  assumes R: "\<forall>U\<in>R. writes_in_list W (P U)"
  shows "(\<forall>cs s out s' e. exec n P cs s = Some (out, s') \<longrightarrow> writes_in_list W cs \<longrightarrow>
            activeEffect s = Some e \<longrightarrow> e \<in> R \<longrightarrow> observers_in s W R \<longrightarrow> step W R R s s') \<and>
         (\<forall>t k v s out s'. reactive_set n P t k v s = Some (out, s') \<longrightarrow> (t, k) \<in> W \<longrightarrow>
            observers_in s W R \<longrightarrow> step W R R s s') \<and>
         (\<forall>t k s out s'. trigger n P t k s = Some (out, s') \<longrightarrow> (t, k) \<in> W \<longrightarrow>
            observers_in s W R \<longrightarrow> step W R R s s') \<and>
         (\<forall>t k i s out s'. forEach n P t k i s = Some (out, s') \<longrightarrow>
            (\<forall>j. i \<le> j \<longrightarrow> j < length (registered s t k) \<longrightarrow> registered s t k ! j \<in> R) \<longrightarrow>
            observers_in s W R \<longrightarrow> step W R R s s') \<and>
         (\<forall>e s out s'. effectFn n P e s = Some (out, s') \<longrightarrow> e \<in> R \<longrightarrow>
            observers_in s W R \<longrightarrow> step W R R s s')"
proof (induction n)
  case 0
  show ?case by simp
next
  case (Suc n)
  note E = Suc.IH[THEN conjunct1, rule_format]
  note S = Suc.IH[THEN conjunct2, THEN conjunct1, rule_format]
  note T = Suc.IH[THEN conjunct2, THEN conjunct2, THEN conjunct1, rule_format]
  have F: "step W R R s s'"
    if "forEach n P t k i s = Some (out, s')"
      and "\<forall>j. i \<le> j \<longrightarrow> j < length (registered s t k) \<longrightarrow> registered s t k ! j \<in> R"
      and "observers_in s W R"
    for t k i s out s'
    using Suc.IH[THEN conjunct2, THEN conjunct2, THEN conjunct2, THEN conjunct1] that by blast
  note X = Suc.IH[THEN conjunct2, THEN conjunct2, THEN conjunct2, THEN conjunct2, rule_format]
  have E': "step W R R s s'"
    if ex: "exec (Suc n) P cs s = Some (out, s')" and wi: "writes_in_list W cs"
      and ac: "activeEffect s = Some e" and eR: "e \<in> R" and ob: "observers_in s W R"
    for cs s out s' e
  proof (cases cs)
    case Nil
    with ex show ?thesis by (simp add: step_refl)
  next
    case (Cons c cs')
    from wi Cons have wi': "writes_in_list W cs'" by simp
    show ?thesis
    proof (cases c)
      case (Read t k)
      let ?s1 = "track t k s"
      have s1: "step W R R s ?s1" using ac eR by (simp add: step_track)
      have ob1: "observers_in ?s1 W R" using ob s1 by (rule observers_in_step)
      have ac1: "activeEffect ?s1 = Some e" using ac by (simp add: track_simps)
      from ex Cons Read have "exec n P cs' ?s1 = Some (out, s')" by (simp add: reactive_get_def)
      from E[OF this wi' ac1 eR ob1] s1 show ?thesis by (blast intro: step_trans)
    next
      case (Write t k v)
      from wi Cons Write have tk: "(t, k) \<in> W" by simp
      from ex Cons Write obtain o1 s1 where rs: "reactive_set n P t k v s = Some (o1, s1)"
        by (cases "reactive_set n P t k v s") auto
      have s1: "step W R R s s1" by (rule S[OF rs tk ob])
      show ?thesis
      proof (cases o1)
        case Threw
        with ex Cons Write rs s1 show ?thesis by simp
      next
        case Normal
        with ex Cons Write rs have ex': "exec n P cs' s1 = Some (out, s')" by simp
        have ac1: "activeEffect s1 = Some e" using active_restored(2)[OF rs] ac by simp
        have ob1: "observers_in s1 W R" using ob s1 by (rule observers_in_step)
        from E[OF ex' wi' ac1 eR ob1] s1 show ?thesis by (blast intro: step_trans)
      qed
    next
      case Throw
      with ex Cons show ?thesis by (simp add: step_refl)
    next
      case (IfEq t k v body)
      let ?s1 = "track t k s"
      from wi Cons IfEq have wib: "writes_in_list W body" by simp
      have s1: "step W R R s ?s1" using ac eR by (simp add: step_track)
      have ob1: "observers_in ?s1 W R" using ob s1 by (rule observers_in_step)
      have ac1: "activeEffect ?s1 = Some e" using ac by (simp add: track_simps)
      show ?thesis
      proof (cases "store s (t, k) = v")
        case False
        with ex Cons IfEq have "exec n P cs' ?s1 = Some (out, s')" by (simp add: reactive_get_def)
        from E[OF this wi' ac1 eR ob1] s1 show ?thesis by (blast intro: step_trans)
      next
        case True
        with ex Cons IfEq obtain o1 s2 where b: "exec n P body ?s1 = Some (o1, s2)"
          by (cases "exec n P body ?s1") (auto simp: reactive_get_def)
        have s2: "step W R R ?s1 s2" by (rule E[OF b wib ac1 eR ob1])
        have s02: "step W R R s s2" using s1 s2 by (rule step_trans)
        show ?thesis
        proof (cases o1)
          case Threw
          with ex Cons IfEq True b s02 show ?thesis by (simp add: reactive_get_def)
        next
          case Normal
          with ex Cons IfEq True b have ex': "exec n P cs' s2 = Some (out, s')"
            by (simp add: reactive_get_def)
          have ac2: "activeEffect s2 = Some e" using active_restored(1)[OF b] ac1 by simp
          have ob2: "observers_in s2 W R" using ob s02 by (rule observers_in_step)
          from E[OF ex' wi' ac2 eR ob2] s02 show ?thesis by (blast intro: step_trans)
        qed
      qed
    qed
  qed
  have S': "step W R R s s'"
    if rs: "reactive_set (Suc n) P t k v s = Some (out, s')" and tk: "(t, k) \<in> W"
      and ob: "observers_in s W R"
    for t k v s out s'
  proof -
    let ?s0 = "s\<lparr>store := (store s)((t, k) := v), events := events s @ [Wrote t k v]\<rparr>"
    have s0: "step W R R s ?s0" using tk by (rule step_write)
    have ob0: "observers_in ?s0 W R" using ob s0 by (rule observers_in_step)
    from rs have "trigger n P t k ?s0 = Some (out, s')" by simp
    from T[OF this tk ob0] s0 show ?thesis by (blast intro: step_trans)
  qed
  have T': "step W R R s s'"
    if tr: "trigger (Suc n) P t k s = Some (out, s')" and tk: "(t, k) \<in> W"
      and ob: "observers_in s W R"
    for t k s out s'
  proof (cases "deps_of s t k")
    case None
    with tr have "s' = s" by (auto simp: deps_of_def split: option.splits)
    then show ?thesis by (simp add: step_refl)
  next
    case (Some ds)
    with tr have fe: "forEach n P t k 0 s = Some (out, s')"
      by (auto simp: deps_of_def split: option.splits)
    have "set (registered s t k) \<subseteq> R" using ob tk by (auto simp: observers_in_def)
    then have "\<forall>j. 0 \<le> j \<longrightarrow> j < length (registered s t k) \<longrightarrow> registered s t k ! j \<in> R"
      by (meson nth_mem subsetD)
    from F[OF fe this ob] show ?thesis .
  qed
  have F': "step W R R s s'"
    if fe: "forEach (Suc n) P t k i s = Some (out, s')"
      and inR: "\<forall>j. i \<le> j \<longrightarrow> j < length (registered s t k) \<longrightarrow> registered s t k ! j \<in> R"
      and ob: "observers_in s W R"
    for t k i s out s'
  proof (cases "deps_of s t k")
    case None
    with fe show ?thesis by (simp add: step_refl)
  next
    case (Some ds)
    then have reg: "registered s t k = ds" by (simp add: registered_def)
    show ?thesis
    proof (cases "i < length ds")
      case False
      with fe Some show ?thesis by (simp add: step_refl)
    next
      case True
      with inR reg have eR: "ds ! i \<in> R" by simp
      from fe Some True obtain o1 s1 where ef: "effectFn n P (ds ! i) s = Some (o1, s1)"
        by (cases "effectFn n P (ds ! i) s") auto
      have s1: "step W R R s s1" by (rule X[OF ef eR ob])
      show ?thesis
      proof (cases o1)
        case Threw
        with fe Some True ef s1 show ?thesis by simp
      next
        case Normal
        with fe Some True ef have fe': "forEach n P t k (Suc i) s1 = Some (out, s')" by simp
        have ob1: "observers_in s1 W R" using ob s1 by (rule observers_in_step)
        from s1 obtain more where m: "registered s1 t k = registered s t k @ more" "set more \<subseteq> R"
          unfolding step_def grows_def by blast
        have "\<forall>j. Suc i \<le> j \<longrightarrow> j < length (registered s1 t k) \<longrightarrow> registered s1 t k ! j \<in> R"
        proof (intro allI impI)
          fix j assume j: "Suc i \<le> j" "j < length (registered s1 t k)"
          show "registered s1 t k ! j \<in> R"
          proof (cases "j < length (registered s t k)")
            case True
            with inR j(1) m(1) show ?thesis by (simp add: nth_append)
          next
            case False
            with j(2) m(1) have "j - length (registered s t k) < length more" by simp
            then have "more ! (j - length (registered s t k)) \<in> set more" by simp
            with m False show ?thesis by (auto simp: nth_append)
          qed
        qed
        from F[OF fe' this ob1] s1 show ?thesis by (blast intro: step_trans)
      qed
    qed
  qed
  have X': "step W R R s s'"
    if ef: "effectFn (Suc n) P e s = Some (out, s')" and eR: "e \<in> R"
      and ob: "observers_in s W R"
    for e s out s'
  proof -
    let ?s1 = "s\<lparr>activeEffect := Some e, runs := (runs s)(e := Suc (runs s e)),
                   lastReads := (lastReads s)(e := []), events := events s @ [Started e]\<rparr>"
    have s1: "step W R R s ?s1" using eR by (rule step_start)
    have ob1: "observers_in ?s1 W R" using ob s1 by (rule observers_in_step)
    from ef obtain s2 where ex: "exec n P (P e) ?s1 = Some (out, s2)"
      and s': "s' = s2\<lparr>activeEffect := activeEffect s\<rparr>"
      by (auto simp: Let_def split: option.splits)
    have wi: "writes_in_list W (P e)" using R eR by blast
    have ac: "activeEffect ?s1 = Some e" by simp
    have s2: "step W R R ?s1 s2" by (rule E[OF ex wi ac eR ob1])
    have "step W R R s2 s'" unfolding s' by (rule step_active)
    with s1 s2 show ?thesis by (blast intro: step_trans)
  qed
  show ?case
    by (intro conjI allI impI) (erule (4) E', erule (2) S', erule (2) T', erule (2) F', erule (2) X')
qed

lemma write_reach:
  assumes "\<forall>U\<in>R. writes_in_list W (P U)" and "reactive_set n P t k v s = Some (out, s')"
      and "(t, k) \<in> W" and "observers_in s W R"
  shows "step W R R s s'"
  using reach[OF assms(1), of n, THEN conjunct2, THEN conjunct1, rule_format, OF assms(2,3,4)] .

lemma forEach_reach:
  assumes "\<forall>U\<in>R. writes_in_list W (P U)" and "forEach n P t k i s = Some (out, s')"
      and "\<forall>j. i \<le> j \<longrightarrow> j < length (registered s t k) \<longrightarrow> registered s t k ! j \<in> R"
      and "observers_in s W R"
  shows "step W R R s s'"
  using reach[OF assms(1), of n, THEN conjunct2, THEN conjunct2, THEN conjunct2, THEN conjunct1]
    assms(2,3,4) by blast

text \<open>
  The body of a task \<open>T\<close> that writes only fields of \<open>W\<close> and reads none of them: its
  writes start only tasks of \<open>R\<close>, and \<open>T\<close> enters no dependency set of a field of \<open>W\<close>.
\<close>

lemma exec_task:
  assumes R: "\<forall>U\<in>R. writes_in_list W (P U)"
  shows "exec n P cs s = Some (out, s') \<Longrightarrow> writes_in_list W cs \<Longrightarrow> reads_out_list W cs \<Longrightarrow>
         activeEffect s = Some T \<Longrightarrow> observers_in s W R \<Longrightarrow> step W R (insert T R) s s'"
proof (induction n arbitrary: cs s out s')
  case 0
  then show ?case by simp
next
  case (Suc n)
  note ex = Suc.prems(1) and wi = Suc.prems(2) and ro = Suc.prems(3) and ac = Suc.prems(4)
    and ob = Suc.prems(5)
  show ?case
  proof (cases cs)
    case Nil
    with ex show ?thesis by (simp add: step_refl)
  next
    case (Cons c cs')
    from wi ro Cons have wi': "writes_in_list W cs'" and ro': "reads_out_list W cs'" by simp_all
    show ?thesis
    proof (cases c)
      case (Read t k)
      let ?s1 = "track t k s"
      from ro Cons Read have tk: "(t, k) \<notin> W" by simp
      have s1: "step W R (insert T R) s ?s1" using ac tk by (simp add: step_track)
      have ob1: "observers_in ?s1 W R" using ob s1 by (rule observers_in_step)
      have ac1: "activeEffect ?s1 = Some T" using ac by (simp add: track_simps)
      from ex Cons Read have "exec n P cs' ?s1 = Some (out, s')" by (simp add: reactive_get_def)
      from Suc.IH[OF this wi' ro' ac1 ob1] s1 show ?thesis by (blast intro: step_trans)
    next
      case (Write t k v)
      from wi Cons Write have tk: "(t, k) \<in> W" by simp
      from ex Cons Write obtain o1 s1 where rs: "reactive_set n P t k v s = Some (o1, s1)"
        by (cases "reactive_set n P t k v s") auto
      have "step W R R s s1" by (rule write_reach[OF R rs tk ob])
      then have s1: "step W R (insert T R) s s1" by (rule step_mono[rotated]) auto
      show ?thesis
      proof (cases o1)
        case Threw
        with ex Cons Write rs s1 show ?thesis by simp
      next
        case Normal
        with ex Cons Write rs have ex': "exec n P cs' s1 = Some (out, s')" by simp
        have ac1: "activeEffect s1 = Some T" using active_restored(2)[OF rs] ac by simp
        have ob1: "observers_in s1 W R" using ob s1 by (rule observers_in_step)
        from Suc.IH[OF ex' wi' ro' ac1 ob1] s1 show ?thesis by (blast intro: step_trans)
      qed
    next
      case Throw
      with ex Cons show ?thesis by (simp add: step_refl)
    next
      case (IfEq t k v body)
      let ?s1 = "track t k s"
      from wi ro Cons IfEq have wib: "writes_in_list W body" and rob: "reads_out_list W body"
        and tk: "(t, k) \<notin> W" by simp_all
      have s1: "step W R (insert T R) s ?s1" using ac tk by (simp add: step_track)
      have ob1: "observers_in ?s1 W R" using ob s1 by (rule observers_in_step)
      have ac1: "activeEffect ?s1 = Some T" using ac by (simp add: track_simps)
      show ?thesis
      proof (cases "store s (t, k) = v")
        case False
        with ex Cons IfEq have "exec n P cs' ?s1 = Some (out, s')" by (simp add: reactive_get_def)
        from Suc.IH[OF this wi' ro' ac1 ob1] s1 show ?thesis by (blast intro: step_trans)
      next
        case True
        with ex Cons IfEq obtain o1 s2 where b: "exec n P body ?s1 = Some (o1, s2)"
          by (cases "exec n P body ?s1") (auto simp: reactive_get_def)
        have s2: "step W R (insert T R) ?s1 s2" by (rule Suc.IH[OF b wib rob ac1 ob1])
        have s02: "step W R (insert T R) s s2" using s1 s2 by (rule step_trans)
        show ?thesis
        proof (cases o1)
          case Threw
          with ex Cons IfEq True b s02 show ?thesis by (simp add: reactive_get_def)
        next
          case Normal
          with ex Cons IfEq True b have ex': "exec n P cs' s2 = Some (out, s')"
            by (simp add: reactive_get_def)
          have ac2: "activeEffect s2 = Some T" using active_restored(1)[OF b] ac1 by simp
          have ob2: "observers_in s2 W R" using ob s02 by (rule observers_in_step)
          from Suc.IH[OF ex' wi' ro' ac2 ob2] s02 show ?thesis by (blast intro: step_trans)
        qed
      qed
    qed
  qed
qed

text \<open>
  A write to a field whose only registered task is \<open>T\<close>, when the writes of \<open>T\<close> reach
  only tasks of \<open>R\<close> and \<open>T\<close> is not one of them.
\<close>

lemma single_write:
  assumes d: "deps_of s t f = Some [T]"
      and wi: "writes_in_list W (P T)" and ro: "reads_out_list W (P T)"
      and TR: "T \<notin> R" and R: "\<forall>U\<in>R. writes_in_list W (P U)" and ob: "observers_in s W R"
      and rs: "reactive_set n P t f v s = Some (out, s')"
  shows "(\<exists>rest. events s' = events s @ Wrote t f v # Started T # rest \<and> Started T \<notin> set rest) \<and>
         runs s' T = Suc (runs s T) \<and> store s' (t, f) = v \<and>
         (\<forall>tk. tk \<notin> W \<longrightarrow> tk \<noteq> (t, f) \<longrightarrow> store s' tk = store s tk)"
proof -
  have reg: "registered s t f = [T]" using d by (simp add: registered_def)
  have tfW: "(t, f) \<notin> W"
  proof
    assume "(t, f) \<in> W"
    with ob reg have "T \<in> R" by (auto simp: observers_in_def)
    with TR show False by simp
  qed
  let ?s0 = "s\<lparr>store := (store s)((t, f) := v), events := events s @ [Wrote t f v]\<rparr>"
  from rs obtain a where n: "n = Suc a" and tr: "trigger a P t f ?s0 = Some (out, s')"
    by (cases n) auto
  from d obtain dm where tm: "targetMap s t = Some dm" "dm f = Some [T]"
    by (auto simp: deps_of_def split: option.splits)
  from tr tm obtain b where a: "a = Suc b" and fe: "forEach b P t f 0 ?s0 = Some (out, s')"
    by (cases a) auto
  have d0: "deps_of ?s0 t f = Some [T]" using d by simp
  from fe obtain c where b: "b = Suc c" by (cases b) auto
  obtain o1 s1 where ef: "effectFn c P T ?s0 = Some (o1, s1)"
    using fe d0 b by (cases "effectFn c P T ?s0") auto
  have rest: "(o1 = Threw \<and> s' = s1) \<or> (o1 = Normal \<and> forEach c P t f (Suc 0) s1 = Some (out, s'))"
    using fe d0 b ef by (cases o1) auto
  let ?s0' = "?s0\<lparr>activeEffect := Some T, runs := (runs ?s0)(T := Suc (runs ?s0 T)),
                   lastReads := (lastReads ?s0)(T := []), events := events ?s0 @ [Started T]\<rparr>"
  from ef obtain m s2 where c: "c = Suc m" and ex: "exec m P (P T) ?s0' = Some (o1, s2)"
    and s1: "s1 = s2\<lparr>activeEffect := activeEffect ?s0\<rparr>"
    by (cases c) (auto simp: Let_def split: option.splits)
  have ob0: "observers_in ?s0' W R" using ob by (simp add: observers_in_def)
  have st: "step W R (insert T R) ?s0' s2"
    by (rule exec_task[OF R ex wi ro _ ob0]) simp
  from st obtain ev1 where e1: "events s2 = events ?s0' @ ev1" "\<forall>e. Started e \<in> set ev1 \<longrightarrow> e \<in> R"
    unfolding step_def by blast
  from st TR have r2: "runs s2 T = runs ?s0' T" unfolding step_def by blast
  from st have st2: "\<forall>tk. tk \<notin> W \<longrightarrow> store s2 tk = store ?s0' tk" unfolding step_def by blast
  from st obtain more where m: "registered s2 t f = registered ?s0' t f @ more"
    "set more \<subseteq> insert T R" "set more \<inter> set (registered ?s0' t f) = {}"
    unfolding step_def grows_def by blast
  have mR: "set more \<subseteq> R" using m(2,3) reg by auto
  have reg1: "registered s1 t f = T # more" using m(1) reg by (simp add: s1)
  have ob1: "observers_in s1 W R"
    using observers_in_step[OF ob0 st] by (simp add: s1 observers_in_def)
  have ev_s1: "events s1 = events s @ Wrote t f v # Started T # ev1" using e1(1) by (simp add: s1)
  have nT1: "Started T \<notin> set ev1" using e1(2) TR by blast
  have r1: "runs s1 T = Suc (runs s T)" using r2 by (simp add: s1)
  have st1: "\<forall>tk. tk \<notin> W \<longrightarrow> store s1 tk = ((store s)((t, f) := v)) tk"
    using st2 by (simp add: s1)
  from rest show ?thesis
  proof
    assume "o1 = Threw \<and> s' = s1"
    then show ?thesis using ev_s1 nT1 r1 st1 tfW by auto
  next
    assume "o1 = Normal \<and> forEach c P t f (Suc 0) s1 = Some (out, s')"
    then have fe1: "forEach c P t f (Suc 0) s1 = Some (out, s')" by simp
    have inR: "\<forall>j. Suc 0 \<le> j \<longrightarrow> j < length (registered s1 t f) \<longrightarrow> registered s1 t f ! j \<in> R"
    proof (intro allI impI)
      fix j assume j: "Suc 0 \<le> j" "j < length (registered s1 t f)"
      then obtain j' where j': "j = Suc j'" by (cases j) auto
      with j(2) reg1 have "more ! j' \<in> set more" by simp
      with mR reg1 j' show "registered s1 t f ! j \<in> R" by auto
    qed
    have sf: "step W R R s1 s'" by (rule forEach_reach[OF R fe1 inR ob1])
    from sf obtain ev2 where e2: "events s' = events s1 @ ev2" "\<forall>e. Started e \<in> set ev2 \<longrightarrow> e \<in> R"
      unfolding step_def by blast
    from sf TR have rf: "runs s' T = runs s1 T" unfolding step_def by blast
    from sf have stf: "\<forall>tk. tk \<notin> W \<longrightarrow> store s' tk = store s1 tk" unfolding step_def by blast
    have nT2: "Started T \<notin> set ev2" using e2(2) TR by blast
    have "events s' = events s @ Wrote t f v # Started T # (ev1 @ ev2)"
      using e2(1) ev_s1 by simp
    moreover have "Started T \<notin> set (ev1 @ ev2)" using nT1 nT2 by simp
    ultimately have "\<exists>rest. events s' = events s @ Wrote t f v # Started T # rest \<and>
        Started T \<notin> set rest" by blast
    then show ?thesis using rf r1 stf st1 tfW by auto
  qed
qed

lemma single_write_ends:
  assumes d: "deps_of s t f = Some [T]"
      and wi: "writes_in_list W (P T)" and ro: "reads_out_list W (P T)"
      and un: "unobserved s W" and c: "cost_list (P T) + 3 < n"
  shows "\<exists>out s'. reactive_set n P t f v s = Some (out, s')"
proof -
  from c obtain m where n: "n = Suc (Suc (Suc m))" and m: "cost_list (P T) < m"
    by (cases n; cases "n - 1"; cases "n - 2") auto
  let ?s0 = "s\<lparr>store := (store s)((t, f) := v), events := events s @ [Wrote t f v]\<rparr>"
  have d0: "deps_of ?s0 t f = Some [T]" using d by simp
  have u0: "unobserved ?s0 W" using un by (simp add: unobserved_def)
  from d have tm: "\<exists>dm. targetMap s t = Some dm \<and> dm f = Some [T]"
    by (auto simp: deps_of_def split: option.splits)
  from effectFn_quiet[where P=P and e=T and n=m and s="?s0", OF wi ro u0 m] obtain o1 s1 where
    r1: "effectFn m P T ?s0 = Some (o1, s1)" "deps_kept T ?s0 s1" by blast
  have d1: "deps_of s1 t f = Some [T]" using r1(2) d0 by (simp add: deps_kept_def)
  from m obtain m' where m': "m = Suc m'" by (cases m) auto
  have fe: "forEach (Suc m) P t f 0 ?s0 = Some (o1, s1)"
    using d0 d1 r1(1) m' by (cases o1) simp_all
  from tm fe n show ?thesis by auto
qed

subsection \<open>Claims about the reactive system\<close>

text \<open>
  C4. Whatever the body does, and whether it returns or throws, a run of the wrapper
  \<open>effectFn\<close> that ends leaves \<open>activeEffect\<close> at the value it had before the run;
  the same holds across a whole body and across a write (with the nested runs it
  triggers), so a nested run never changes the slot its caller sees.
\<close>

theorem effectFn_restores_activeEffect:
  "(effectFn n P e s = Some (out, s') \<longrightarrow> activeEffect s' = activeEffect s) \<and>
   (exec n P cs s = Some (out, s') \<longrightarrow> activeEffect s' = activeEffect s) \<and>
   (reactive_set n P t k v s = Some (out, s') \<longrightarrow> activeEffect s' = activeEffect s)"
  using active_restored(1,2,5) by blast

theorem effectFn_restores_activeEffect_witness:
  "map_option fst (effectFn 20 thrower_prog 1 thrower_state) = Some Threw \<and>
   map_option (\<lambda>r. activeEffect (snd r)) (effectFn 20 thrower_prog 1 thrower_state) = Some (Some 7)"
proof -
  have a: "map_option fst (effectFn 20 thrower_prog 1 thrower_state) = Some Threw"
    by code_simp
  then obtain s' where b: "effectFn 20 thrower_prog 1 thrower_state = Some (Threw, s')"
    by (cases "effectFn 20 thrower_prog 1 thrower_state") auto
  have c: "activeEffect thrower_state = Some 7" by code_simp
  from effectFn_restores_activeEffect[of 20 thrower_prog 1 thrower_state Threw s'] b
  have "activeEffect s' = activeEffect thrower_state" by blast
  with a b c show ?thesis by simp
qed

text \<open>
  C3, as stated, fails: the only task registered on \<open>f\<close> runs twice for one write when
  its body writes \<open>f\<close> itself.
\<close>

theorem write_reruns_once_counterexample:
  "deps_of selfwrite_state 0 ''f'' = Some [0] \<and>
   map_option (\<lambda>r. (fst r, runs (snd r) 0))
     (reactive_set 20 selfwrite_prog 0 ''f'' (Num 0) selfwrite_state)
   = Some (Normal, runs selfwrite_state 0 + 2)"
  by code_simp

text \<open>
  C3, amended. Let \<open>T\<close> be the only task registered on field \<open>f\<close> of \<open>t\<close>, and let no
  write that \<open>T\<close> performs reach \<open>T\<close> again: the body of \<open>T\<close> writes only fields of a set
  \<open>W\<close> that it does not read, and the tasks registered on fields of \<open>W\<close>, with the tasks
  that their own writes reach, form a set \<open>R\<close> that does not contain \<open>T\<close>. Then every
  write \<open>t.f = v\<close> that ends (whatever \<open>v\<close> is, the current value included) has first
  performed the underlying write and then started \<open>T\<close>, and has started \<open>T\<close> no second
  time; \<open>f\<close> holds \<open>v\<close>, and \<open>activeEffect\<close> is as before. When no task at all is
  registered on the fields that \<open>T\<close> writes, the write ends within the bound.
\<close>

theorem write_reruns_once:
  assumes "deps_of s t f = Some [T]"
      and "writes_in_list W (P T)" and "reads_out_list W (P T)"
      and "T \<notin> R" and "reach_closed P s W R"
  shows "(\<forall>out s'. reactive_set n P t f v s = Some (out, s') \<longrightarrow>
            (\<exists>rest. events s' = events s @ Wrote t f v # Started T # rest \<and>
                    Started T \<notin> set rest) \<and>
            runs s' T = Suc (runs s T) \<and> store s' (t, f) = v \<and>
            (\<forall>tk. tk \<notin> W \<longrightarrow> tk \<noteq> (t, f) \<longrightarrow> store s' tk = store s tk) \<and>
            activeEffect s' = activeEffect s) \<and>
         (unobserved s W \<and> cost_list (P T) + 3 < n \<longrightarrow>
            (\<exists>out s'. reactive_set n P t f v s = Some (out, s')))"
proof (intro conjI allI impI)
  fix out s' assume rs: "reactive_set n P t f v s = Some (out, s')"
  from assms(5) have R: "\<forall>U\<in>R. writes_in_list W (P U)" and ob: "observers_in s W R"
    by (simp_all add: reach_closed_def)
  note sw = single_write[OF assms(1,2,3,4) R ob rs]
  show "\<exists>rest. events s' = events s @ Wrote t f v # Started T # rest \<and> Started T \<notin> set rest"
    using sw by blast
  show "runs s' T = Suc (runs s T)" using sw by blast
  show "store s' (t, f) = v" using sw by blast
  show "activeEffect s' = activeEffect s" using rs by (rule active_restored(2))
  fix tk assume "tk \<notin> W" "tk \<noteq> (t, f)"
  then show "store s' tk = store s tk" using sw by blast
next
  assume "unobserved s W \<and> cost_list (P T) + 3 < n"
  then show "\<exists>out s'. reactive_set n P t f v s = Some (out, s')"
    using single_write_ends[where P=P and T=T and W=W, OF assms(1,2,3)] by blast
qed

theorem write_reruns_once_witness:
  "store reader_state (0, ''f'') = Num 1 \<and>
   (\<exists>out s' rest. reactive_set 10 reader_prog 0 ''f'' (Num 1) reader_state = Some (out, s')
      \<and> events s' = events reader_state @ Wrote 0 ''f'' (Num 1) # Started 0 # rest
      \<and> Started 0 \<notin> set rest
      \<and> runs s' 0 = Suc (runs reader_state 0)
      \<and> store s' (0, ''f'') = Num 1
      \<and> activeEffect s' = activeEffect reader_state)"
proof -
  have h1: "deps_of reader_state 0 ''f'' = Some [0]" by code_simp
  have h2: "writes_in_list {(0, ''seen'')} (reader_prog 0)" by (simp add: reader_prog_def)
  have h3: "reads_out_list {(0, ''seen'')} (reader_prog 0)" by (simp add: reader_prog_def)
  have h4: "(0::nat) \<notin> {}" by simp
  have r: "registered reader_state 0 ''seen'' = []" by code_simp
  have h5: "reach_closed reader_prog reader_state {(0, ''seen'')} {}"
    by (simp add: reach_closed_def observers_in_def r)
  have h6: "unobserved reader_state {(0, ''seen'')}" by (simp add: unobserved_def r)
  have h7: "cost_list (reader_prog 0) + 3 < 10" by (simp add: reader_prog_def)
  have h8: "store reader_state (0, ''f'') = Num 1" by code_simp
  note t = write_reruns_once[where P=reader_prog and T=0 and v="Num 1" and n=10,
      OF h1 h2 h3 h4 h5]
  from t h6 h7 obtain out s' where
    rs: "reactive_set 10 reader_prog 0 ''f'' (Num 1) reader_state = Some (out, s')" by blast
  from t rs have
    "(\<exists>rest. events s' = events reader_state @ Wrote 0 ''f'' (Num 1) # Started 0 # rest \<and>
             Started 0 \<notin> set rest) \<and>
     runs s' 0 = Suc (runs reader_state 0) \<and> store s' (0, ''f'') = Num 1 \<and>
     activeEffect s' = activeEffect reader_state" by blast
  with rs h8 show ?thesis by blast
qed

text \<open>
  C8, as stated, fails, in two ways. Dependency sets only grow: the latest execution of
  task 0 of the first program read only \<open>f\<close>, yet a write to \<open>g\<close> runs it again,
  because an earlier execution read \<open>g\<close>. And writes cascade: task 0 of the second
  program never read \<open>g\<close>, yet a write to \<open>g\<close> runs it again, because task 1, which
  is registered on \<open>g\<close>, writes \<open>f\<close>.
\<close>

theorem no_cross_field_counterexample:
  "lastReads stale_state 0 = [(0, ''f'')] \<and>
   map_option (\<lambda>r. (fst r, runs (snd r) 0))
     (reactive_set 20 stale_prog 0 ''g'' (Num 7) stale_state)
   = Some (Normal, Suc (runs stale_state 0)) \<and>
   lastReads cascade_state 0 = [(0, ''f'')] \<and>
   registered cascade_state 0 ''g'' = [1] \<and>
   map_option (\<lambda>r. (fst r, runs (snd r) 0))
     (reactive_set 20 cascade_prog 0 ''g'' (Num 7) cascade_state)
   = Some (Normal, Suc (runs cascade_state 0))"
  by code_simp

text \<open>
  C8, amended. A write to field \<open>g\<close> does not run a task \<open>T\<close> that the write cannot
  reach: if the tasks registered on \<open>g\<close>, together with the tasks registered on the
  fields that these write, and so on, form a set \<open>R\<close> that does not contain \<open>T\<close> (\<open>W\<close>
  is the set of the fields concerned), then a write to \<open>g\<close> that ends has not started
  \<open>T\<close>. In particular \<open>T\<close> must not be in the dependency set of \<open>g\<close>, where an earlier
  execution that read \<open>g\<close> has left it. When the tasks registered on \<open>g\<close> write only
  fields that they do not read and that no task is registered on, the write ends within
  the bound.
\<close>

theorem no_cross_field:
  assumes "(t, g) \<in> W" and "T \<notin> R" and "reach_closed P s W R"
  shows "(\<forall>out s'. reactive_set n P t g v s = Some (out, s') \<longrightarrow>
            runs s' T = runs s T \<and> Started T \<notin> set (drop (length (events s)) (events s'))) \<and>
         ((\<forall>U\<in>set (registered s t g). writes_in_list Q (P U) \<and> reads_out_list Q (P U)) \<and>
            unobserved s Q \<and> fuel_for P (registered s t g) + 2 < n \<longrightarrow>
          (\<exists>out s'. reactive_set n P t g v s = Some (out, s')))"
proof (intro conjI allI impI)
  fix out s' assume rs: "reactive_set n P t g v s = Some (out, s')"
  from assms(3) have R: "\<forall>U\<in>R. writes_in_list W (P U)" and ob: "observers_in s W R"
    by (simp_all add: reach_closed_def)
  have st: "step W R R s s'" by (rule write_reach[OF R rs assms(1) ob])
  show "runs s' T = runs s T" using st assms(2) unfolding step_def by blast
  from st obtain ev where "events s' = events s @ ev" "\<forall>e. Started e \<in> set ev \<longrightarrow> e \<in> R"
    unfolding step_def by blast
  then show "Started T \<notin> set (drop (length (events s)) (events s'))"
    using assms(2) by auto
next
  assume "(\<forall>U\<in>set (registered s t g). writes_in_list Q (P U) \<and> reads_out_list Q (P U)) \<and>
            unobserved s Q \<and> fuel_for P (registered s t g) + 2 < n"
  then show "\<exists>out s'. reactive_set n P t g v s = Some (out, s')"
    using reactive_set_ends[of s t g Q P n v] by blast
qed

theorem no_cross_field_witness:
  "registered two_state 0 ''f'' = [0] \<and> registered two_state 0 ''g'' = [1] \<and>
   (\<exists>out s'. reactive_set 20 two_prog 0 ''g'' (Num 5) two_state = Some (out, s')
      \<and> runs s' 0 = runs two_state 0
      \<and> Started 0 \<notin> set (drop (length (events two_state)) (events s')))"
proof -
  have r: "registered two_state 0 ''f'' = [0]" "registered two_state 0 ''g'' = [1]"
    "registered two_state 0 ''h'' = []"
    by code_simp+
  have h1: "(0, ''g'') \<in> {(0::nat, ''g''), (0, ''h'')}" by simp
  have h2: "(0::nat) \<notin> {1}" by simp
  have h3: "reach_closed two_prog two_state {(0, ''g''), (0, ''h'')} {1}"
    by (simp add: reach_closed_def observers_in_def r two_prog_def)
  have h4: "\<forall>U\<in>set (registered two_state 0 ''g'').
      writes_in_list {(0, ''h'')} (two_prog U) \<and> reads_out_list {(0, ''h'')} (two_prog U)"
    by (simp add: r two_prog_def)
  have h5: "unobserved two_state {(0, ''h'')}" by (simp add: unobserved_def r)
  have h6: "fuel_for two_prog (registered two_state 0 ''g'') + 2 < 20"
    by (simp add: r fuel_for_def two_prog_def)
  note t = no_cross_field[where P=two_prog and T=0 and v="Num 5" and n=20 and Q="{(0, ''h'')}",
      OF h1 h2 h3]
  from t h4 h5 h6 obtain out s' where
    rs: "reactive_set 20 two_prog 0 ''g'' (Num 5) two_state = Some (out, s')" by blast
  from t rs have "runs s' 0 = runs two_state 0 \<and>
      Started 0 \<notin> set (drop (length (events two_state)) (events s'))" by blast
  with rs r show ?thesis by blast
qed

section \<open>Properties of the node backend\<close>

text \<open>
  What each backend call does to the observable parts of the document: the number of
  nodes, the child lists, the parent links, the trace, and the kind of each node.
\<close>

lemma upd_basic [simp]:
  "length (nodes (upd n f d)) = length (nodes d)"
  "trace (upd n f d) = trace d"
  by (simp_all add: upd_def)

lemma upd_nth [simp]:
  "nodes (upd n f d) ! m = (if m = n \<and> n < length (nodes d) then f (nodes d ! n) else nodes d ! m)"
  by (cases "n < length (nodes d)") (simp_all add: upd_def nth_list_update list_update_beyond)

lemma log_basic [simp]:
  "nodes (log x d) = nodes d"
  "trace (log x d) = trace d @ [x]"
  by (simp_all add: log_def)

lemma alloc_basic [simp]:
  "length (nodes (alloc n d)) = Suc (length (nodes d))"
  "trace (alloc n d) = trace d"
  "m \<le> length (nodes d) \<Longrightarrow> nodes (alloc n d) ! m = (if m = length (nodes d) then n else nodes d ! m)"
  by (simp_all add: alloc_def nth_append)

lemmas prim_defs = childNodes_def parentNode_def is_text_def tagOf_def
  new_element_def new_text_def

lemma obs_root [simp]:
  "length (nodes root_dom) = Suc 0" "childNodes root_dom q = []" "parentNode root_dom y = None"
  "trace root_dom = []" "is_text root_dom n = False"
  by (auto simp: root_dom_def prim_defs alloc_def)

lemma obs_alloc_element [simp]:
  "length (nodes (alloc (new_element tag) d)) = Suc (length (nodes d))"
  "childNodes (alloc (new_element tag) d) q = childNodes d q"
  "parentNode (alloc (new_element tag) d) y = parentNode d y"
  "trace (alloc (new_element tag) d) = trace d"
  "is_text (alloc (new_element tag) d) n = is_text d n"
  "tagOf (alloc (new_element tag) d) n = (if n = length (nodes d) then tag else tagOf d n)"
  by (auto simp: prim_defs split: if_splits)

lemma obs_alloc_text [simp]:
  "length (nodes (alloc (new_text s) d)) = Suc (length (nodes d))"
  "childNodes (alloc (new_text s) d) q = childNodes d q"
  "parentNode (alloc (new_text s) d) y = parentNode d y"
  "trace (alloc (new_text s) d) = trace d"
  "is_text (alloc (new_text s) d) n = (n = length (nodes d) \<or> is_text d n)"
  "tagOf (alloc (new_text s) d) n = (if n = length (nodes d) then ''#text'' else tagOf d n)"
  by (auto simp: prim_defs split: if_splits)

lemma obs_do_setAttribute [simp]:
  "length (nodes (do_setAttribute el k v d)) = length (nodes d)"
  "childNodes (do_setAttribute el k v d) q = childNodes d q"
  "parentNode (do_setAttribute el k v d) y = parentNode d y"
  "trace (do_setAttribute el k v d) = trace d @ [SetAttribute el k v]"
  "is_text (do_setAttribute el k v d) n = is_text d n"
  "tagOf (do_setAttribute el k v d) n = tagOf d n"
  by (auto simp: do_setAttribute_def prim_defs)

lemma obs_removeAttribute [simp]:
  "length (nodes (removeAttribute el k d)) = length (nodes d)"
  "childNodes (removeAttribute el k d) q = childNodes d q"
  "parentNode (removeAttribute el k d) y = parentNode d y"
  "trace (removeAttribute el k d) = trace d @ [RemoveAttribute el k]"
  "is_text (removeAttribute el k d) n = is_text d n"
  "tagOf (removeAttribute el k d) n = tagOf d n"
  by (auto simp: removeAttribute_def prim_defs)

lemma obs_do_addEventListener [simp]:
  "length (nodes (do_addEventListener el ev f d)) = length (nodes d)"
  "childNodes (do_addEventListener el ev f d) q = childNodes d q"
  "parentNode (do_addEventListener el ev f d) y = parentNode d y"
  "trace (do_addEventListener el ev f d) = trace d @ [AddEventListener el ev f]"
  "is_text (do_addEventListener el ev f d) n = is_text d n"
  "tagOf (do_addEventListener el ev f d) n = tagOf d n"
  by (auto simp: do_addEventListener_def prim_defs)

lemma obs_do_removeEventListener [simp]:
  "length (nodes (do_removeEventListener el ev f d)) = length (nodes d)"
  "childNodes (do_removeEventListener el ev f d) q = childNodes d q"
  "parentNode (do_removeEventListener el ev f d) y = parentNode d y"
  "trace (do_removeEventListener el ev f d) = trace d @ [RemoveEventListener el ev f]"
  "is_text (do_removeEventListener el ev f d) n = is_text d n"
  "tagOf (do_removeEventListener el ev f d) n = tagOf d n"
  by (auto simp: do_removeEventListener_def prim_defs)

lemma obs_detach [simp]:
  "length (nodes (detach x d)) = length (nodes d)"
  "childNodes (detach x d) q =
     (if parentNode d x = Some q then removeAll x (childNodes d q) else childNodes d q)"
  "parentNode (detach x d) y = (if y = x then None else parentNode d y)"
  "trace (detach x d) = trace d"
  "is_text (detach x d) n = is_text d n"
  "tagOf (detach x d) n = tagOf d n"
  by (auto simp: detach_def prim_defs split: option.splits)

lemma obs_appendChild [simp]:
  "length (nodes (appendChild p x d)) = length (nodes d)"
  "childNodes (appendChild p x d) q =
     (if q = p \<and> p < length (nodes d) then childNodes (detach x d) p @ [x]
      else childNodes (detach x d) q)"
  "parentNode (appendChild p x d) y =
     (if y = x then (if x < length (nodes d) then Some p else None) else parentNode d y)"
  "trace (appendChild p x d) = trace d @ [AppendChild p x]"
  "is_text (appendChild p x d) n = is_text d n"
  "tagOf (appendChild p x d) n = tagOf d n"
  by (auto simp: appendChild_def detach_def prim_defs split: option.splits)

lemma obs_do_insertBefore [simp]:
  "length (nodes (do_insertBefore p x a d)) = length (nodes d)"
  "childNodes (do_insertBefore p x a d) q =
     (if x = a then childNodes d q
      else if q = p \<and> p < length (nodes d) then insert_before x a (childNodes (detach x d) p)
      else childNodes (detach x d) q)"
  "parentNode (do_insertBefore p x a d) y =
     (if x = a then parentNode d y
      else if y = x then (if x < length (nodes d) then Some p else None) else parentNode d y)"
  "trace (do_insertBefore p x a d) = trace d @ [InsertBefore p x a]"
  "is_text (do_insertBefore p x a d) n = is_text d n"
  "tagOf (do_insertBefore p x a d) n = tagOf d n"
  by (auto simp: do_insertBefore_def detach_def prim_defs split: option.splits)

lemma obs_do_removeChild [simp]:
  "length (nodes (do_removeChild p x d)) = length (nodes d)"
  "childNodes (do_removeChild p x d) q =
     (if q = p then removeAll x (childNodes d p) else childNodes d q)"
  "parentNode (do_removeChild p x d) y = (if y = x then None else parentNode d y)"
  "trace (do_removeChild p x d) = trace d @ [RemoveChild p x]"
  "is_text (do_removeChild p x d) n = is_text d n"
  "tagOf (do_removeChild p x d) n = tagOf d n"
  by (auto simp: do_removeChild_def prim_defs)

lemma fold_up_nodes:
  "length (nodes (fold (\<lambda>y. upd y (\<lambda>n. n\<lparr>up := None\<rparr>)) ys d)) = length (nodes d)"
  "trace (fold (\<lambda>y. upd y (\<lambda>n. n\<lparr>up := None\<rparr>)) ys d) = trace d"
  "nodes (fold (\<lambda>y. upd y (\<lambda>n. n\<lparr>up := None\<rparr>)) ys d) ! m =
     (if m \<in> set ys \<and> m < length (nodes d) then (nodes d ! m)\<lparr>up := None\<rparr> else nodes d ! m)"
  by (induction ys arbitrary: d; auto)+

lemma obs_drop_children [simp]:
  "length (nodes (drop_children t d)) = length (nodes d)"
  "childNodes (drop_children t d) q = (if q = t then [] else childNodes d q)"
  "parentNode (drop_children t d) y = (if y \<in> set (childNodes d t) then None else parentNode d y)"
  "trace (drop_children t d) = trace d"
  "is_text (drop_children t d) n = is_text d n"
  "tagOf (drop_children t d) n = tagOf d n"
  by (auto simp: drop_children_def prim_defs fold_up_nodes)

lemma obs_set_textContent [simp]:
  "length (nodes (set_textContent t s d)) =
     (if is_text d t \<or> s = [] then length (nodes d) else Suc (length (nodes d)))"
  "t < length (nodes d) \<Longrightarrow> childNodes (set_textContent t s d) q =
     (if is_text d t then childNodes d q
      else if q = t then (if s = [] then [] else [length (nodes d)])
      else childNodes d q)"
  "t < length (nodes d) \<Longrightarrow> parentNode (set_textContent t s d) y =
     (if is_text d t then parentNode d y
      else if s \<noteq> [] \<and> y = length (nodes d) then Some t
      else if y \<in> set (childNodes d t) then None
      else parentNode d y)"
  "trace (set_textContent t s d) = trace d @ [SetTextContent t s]"
  "t < length (nodes d) \<Longrightarrow> is_text (set_textContent t s d) n =
     (if is_text d t \<or> s = [] then is_text d n else n = length (nodes d) \<or> is_text d n)"
  by (auto simp: set_textContent_def prim_defs fold_up_nodes drop_children_def alloc_def nth_append)

lemma valid_name_simps [simp]:
  "valid_name ''div''" "valid_name ''ul''" "valid_name ''li''" "valid_name ''p''"
  "valid_name ''span''" "valid_name ''key''" "valid_name ''class''"
  "valid_name ''a''" "valid_name ''b''" "valid_name ''c''" "\<not> valid_name ''a b''"
  by (simp_all add: valid_name_def name_start_char_def name_char_def)

lemma not_inherited [simp]:
  "''key'' \<notin> set object_prototype" "''class'' \<notin> set object_prototype"
  "''a'' \<notin> set object_prototype" "''b'' \<notin> set object_prototype"
  "''c'' \<notin> set object_prototype" "''constructor'' \<in> set object_prototype"
  by (simp_all add: object_prototype_def)

lemma call_simps [simp]:
  "call None m d = Inl TypeError"
  "call (Some n) m d = m n d"
  by (simp_all add: call_def)

lemmas eval_defs = createElement_def createTextNode_def insertBefore_def removeChild_def
  setAttribute_def addEventListener_def removeEventListener_def remove_old_def
  nextSibling_def nth_opt_def lookup_def key_in_def startsWith_on_def h_def hasKeyedChildren_def
  findAnchor_def oldEl_of_def render_def patchProps_def patch_new_key_def patch_old_key_def
  insert_before_def
  render_twice_def second_ops_def final_children_def first_children_def nodes_created_def

section \<open>Claims about the renderer\<close>

text \<open>
  C1 (the code departs from the claim). Old keyed children \<open>[A, B, C]\<close> (live nodes 2, 4, 6
  under the list node 1) are reconciled against \<open>[C, A, B]\<close>. No node is removed or
  created, and the only operation is one move, but the move puts A before B, where it
  already was: the live order stays A, B, C instead of becoming C, A, B.
\<close>

theorem keyed_reorder_keeps_old_order:
  "first_children 1 (render_twice old_abc new_cab) = Inr [2, 4, 6] \<and>
   final_children 1 (render_twice old_abc new_cab) = Inr [2, 4, 6] \<and>
   second_ops (render_twice old_abc new_cab) = Inr [InsertBefore 1 2 4] \<and>
   nodes_created (render_twice old_abc new_cab) = Inr 0"
  by (simp add: li_def old_abc_def new_cab_def eval_defs)

text \<open>
  C2 (the code departs from the claim). Reconciling the keyed list \<open>[A, B, C]\<close> against
  an identical copy performs two \<open>insertBefore\<close> calls on live nodes.
\<close>

theorem identical_keyed_tree_is_mutated:
  "second_ops (render_twice old_abc old_abc) = Inr [InsertBefore 1 4 6, InsertBefore 1 2 4]"
  by (simp add: li_def old_abc_def eval_defs)

text \<open>
  C7 (the code departs from the claim). The shrink example behaves as claimed: of the
  old children X, Y, Z (nodes 2, 3, 4) the last two are removed, last first, and X is
  patched in place. But an extra new child that is a text is handed to \<open>mount\<close>,
  which fails on a string, where the claim has it materialized and appended.
\<close>

theorem unkeyed_append_text_fails:
  "second_ops (render_twice old_xyz new_x)
     = Inr [SetAttribute 2 ''class'' (Str ''x2''), RemoveChild 1 4, RemoveChild 1 3] \<and>
   final_children 1 (render_twice old_xyz new_x) = Inr [2] \<and>
   render_twice old_p new_p_text = Inl TypeError"
  by (simp add: para_def old_xyz_def new_x_def old_p_def new_p_text_def eval_defs)

lemma parentNode_beyond: "\<not> n < length (nodes d) \<Longrightarrow> parentNode d n = None"
  by (simp add: parentNode_def)

lemma childNodes_beyond: "\<not> n < length (nodes d) \<Longrightarrow> childNodes d n = []"
  by (simp add: childNodes_def)

lemma same_tree_refl: "same_tree d d"
  by (simp add: same_tree_def)

lemma same_tree_trans: "same_tree d d1 \<Longrightarrow> same_tree d1 d2 \<Longrightarrow> same_tree d d2"
  by (simp add: same_tree_def)

lemma same_tree_attr:
  "same_tree d (do_setAttribute el k v d)"
  "same_tree d (removeAttribute el k d)"
  "same_tree d (do_addEventListener el ev f d)"
  "same_tree d (do_removeEventListener el ev f d)"
  by (simp_all add: same_tree_def)

lemma attr_call_same:
  "setAttribute el k v d = Inr d' \<Longrightarrow> same_tree d d'"
  "addEventListener el ev f d = Inr d' \<Longrightarrow> same_tree d d'"
  "removeEventListener el ev f d = Inr d' \<Longrightarrow> same_tree d d'"
  by (auto simp: setAttribute_def addEventListener_def removeEventListener_def same_tree_attr
           split: if_splits)

lemma attr_call_trace:
  "setAttribute el k v d = Inr d' \<Longrightarrow> trace d' = trace d @ [SetAttribute el k v]"
  "addEventListener el ev f d = Inr d' \<Longrightarrow> trace d' = trace d @ [AddEventListener el ev f]"
  "removeEventListener el ev f d = Inr d' \<Longrightarrow> trace d' = trace d @ [RemoveEventListener el ev f]"
  by (auto simp: setAttribute_def addEventListener_def removeEventListener_def split: if_splits)

lemma mount_props_same:
  "mount_props el props ps d = Inr d' \<Longrightarrow> same_tree d d'"
proof (induction el props ps d arbitrary: d' rule: mount_props.induct)
  case (1 el props d)
  then show ?case by (simp add: same_tree_refl)
next
  case (2 el props k x rest d)
  from "2.prems" obtain d1 where
    s: "(if startsWith_on k then addEventListener el (eventName k) (lookup props k) d
         else setAttribute el k (lookup props k) d) = Inr d1"
    and r: "mount_props el props rest d1 = Inr d'"
    by (auto split: sum.splits)
  from s have "same_tree d d1" by (auto split: if_splits dest: attr_call_same)
  moreover have "same_tree d1 d'" using "2.IH" s r by blast
  ultimately show ?case by (rule same_tree_trans)
qed

lemma mount_props_trace:
  "mount_props el props ps d = Inr d' \<Longrightarrow>
   trace d' = trace d @ map (\<lambda>(k, x). apply_op el props k) ps"
proof (induction el props ps d arbitrary: d' rule: mount_props.induct)
  case (1 el props d)
  then show ?case by simp
next
  case (2 el props k x rest d)
  from "2.prems" obtain d1 where
    s: "(if startsWith_on k then addEventListener el (eventName k) (lookup props k) d
         else setAttribute el k (lookup props k) d) = Inr d1"
    and r: "mount_props el props rest d1 = Inr d'"
    by (auto split: sum.splits)
  from s have "trace d1 = trace d @ [apply_op el props k]"
    by (auto simp: apply_op_def split: if_splits dest: attr_call_trace)
  moreover have "trace d' = trace d1 @ map (\<lambda>(k, x). apply_op el props k) rest"
    using "2.IH" s r by blast
  ultimately show ?case by simp
qed

lemma mount_props_ok:
  "list_all (\<lambda>(k, x). attr_ok props k) ps \<Longrightarrow> \<exists>d'. mount_props el props ps d = Inr d'"
proof (induction el props ps d rule: mount_props.induct)
  case (1 el props d)
  then show ?case by simp
next
  case (2 el props k x rest d)
  from "2.prems" have ok: "attr_ok props k" and rest: "list_all (\<lambda>(k, x). attr_ok props k) rest"
    by simp_all
  from ok have "\<exists>d1. (if startsWith_on k then addEventListener el (eventName k) (lookup props k) d
         else setAttribute el k (lookup props k) d) = Inr d1"
    by (cases "startsWith_on k") (simp_all add: attr_ok_def addEventListener_def setAttribute_def)
  then obtain d1 where
    s: "(if startsWith_on k then addEventListener el (eventName k) (lookup props k) d
         else setAttribute el k (lookup props k) d) = Inr d1" by blast
  from "2.IH"[OF s rest] obtain d' where "mount_props el props rest d1 = Inr d'" by blast
  with s show ?case by simp
qed

lemma grown_refl: "grown el d d"
  by (simp add: grown_def)

lemma grown_trans:
  assumes "grown el d d1" and "grown el d1 d2"
  shows "grown el d d2"
proof -
  from assms have l1: "length (nodes d) \<le> length (nodes d1)"
    and l2: "length (nodes d1) \<le> length (nodes d2)"
    by (simp_all add: grown_def)
  have below: "\<And>n. n < length (nodes d) \<Longrightarrow> n < length (nodes d1)" using l1 by simp
  have c: "\<And>q. q < length (nodes d) \<Longrightarrow> q \<noteq> el \<Longrightarrow> childNodes d2 q = childNodes d q"
    using assms below by (simp add: grown_def)
  have p: "\<And>y. y < length (nodes d) \<Longrightarrow> parentNode d2 y = parentNode d y"
    using assms below by (simp add: grown_def)
  have t: "\<And>n. n < length (nodes d) \<Longrightarrow> is_text d2 n = is_text d n \<and> tagOf d2 n = tagOf d n"
    using assms below by (simp add: grown_def)
  from assms obtain o1 o2 where "trace d1 = trace d @ o1" "trace d2 = trace d1 @ o2"
    by (auto simp: grown_def)
  then have tr: "\<exists>ops. trace d2 = trace d @ ops" by simp
  show ?thesis unfolding grown_def using l1 l2 c p t tr by simp
qed

lemma grown_same_tree: "same_tree d d' \<Longrightarrow> grown el d' d'' \<Longrightarrow> length (nodes d) \<le> length (nodes d'')"
  by (simp add: same_tree_def grown_def)

text \<open>What a successful \<open>mount\<close> of a descriptor went through.\<close>

lemma mount_VNode_E:
  assumes "mount (VNode tag props cs key e0) co d = Inr (v', d')"
  obtains c d2 cs' d3 where "co = Some c" "valid_name tag"
    "mount_props (length (nodes d)) props props (alloc (new_element tag) d) = Inr d2"
    "mount_children cs (length (nodes d)) d2 = Inr (cs', d3)"
    "v' = VNode tag props cs' key (Some (length (nodes d)))"
    "d' = appendChild c (length (nodes d)) d3"
  using assms by (auto simp: createElement_def split: if_splits sum.splits option.splits)

lemma mount_total:
  "mountable v \<Longrightarrow> \<exists>r. mount v (Some c) d = Inr r"
  "mountable_children cs \<Longrightarrow> \<exists>r. mount_children cs el d = Inr r"
proof (induction v "Some c" d and cs el d arbitrary: c rule: mount_mount_children.induct)
  case (1 s d)
  then show ?case by simp
next
  case (2 tag props children key el0 d)
  from "2.prems" have vt: "valid_name tag" and ok: "list_all (\<lambda>(k, x). attr_ok props k) props"
    and mc: "mountable_children children" by simp_all
  have ce: "createElement tag d = Inr (length (nodes d), alloc (new_element tag) d)"
    using vt by (simp add: createElement_def)
  from mount_props_ok[OF ok] obtain d2 where
    mp: "mount_props (length (nodes d)) props props (alloc (new_element tag) d) = Inr d2" by blast
  from "2.hyps"[OF ce refl mp mc] obtain r where "mount_children children (length (nodes d)) d2 = Inr r"
    by blast
  with ce mp show ?case by (cases r) simp
next
  case (3 el d)
  then show ?case by simp
next
  case (4 s rest el d)
  from "4.prems" have mc: "mountable_children rest" by simp
  obtain r where "mount_children rest el
      (appendChild el (length (nodes d)) (alloc (new_text s) d)) = Inr r"
    using "4.hyps"[OF refl, of "length (nodes d)" "alloc (new_text s) d", OF _ mc]
    by (auto simp: createTextNode_def)
  then show ?case by (cases r) (simp add: createTextNode_def)
next
  case (5 tag props children key el0 rest el d)
  from "5.prems" have m: "mountable (VNode tag props children key el0)"
    and mc: "mountable_children rest" by simp_all
  from "5.hyps"(1)[OF m] obtain r1 where
    r1: "mount (VNode tag props children key el0) (Some el) d = Inr r1" by blast
  obtain c1 d1 where r1': "r1 = (c1, d1)" by (cases r1)
  from "5.hyps"(2)[OF r1 r1'[symmetric] mc] obtain r2 where "mount_children rest el d1 = Inr r2"
    by blast
  with r1 r1' show ?case by (cases r2) simp
qed

lemma mount_frame:
  "mount v co d = Inr (v', d') \<Longrightarrow> co = Some c \<Longrightarrow> c < length (nodes d) \<Longrightarrow>
     vel v' = Some (length (nodes d)) \<and> mounted c d d' \<and>
     (\<forall>tag ps cs k e. v = VNode tag ps cs k e \<longrightarrow> tagOf d' (length (nodes d)) = tag)"
  "mount_children cs el d = Inr (cs', d') \<Longrightarrow> el < length (nodes d) \<Longrightarrow> grown el d d'"
proof (induction v co d and cs el d arbitrary: v' d' c and cs' d'
       rule: mount_mount_children.induct)
  case (1 s container d)
  then show ?case by simp
next
  case (2 tag props children key el0 container d)
  define el where "el = length (nodes d)"
  define d1 where "d1 = alloc (new_element tag) d"
  from "2.prems"(1) obtain c0 d2 cs' d3 where co: "container = Some c0" and vt: "valid_name tag"
    and mp: "mount_props el props props d1 = Inr d2"
    and mc: "mount_children children el d2 = Inr (cs', d3)"
    and v': "v' = VNode tag props cs' key (Some el)" and d': "d' = appendChild c0 el d3"
    unfolding el_def d1_def by (rule mount_VNode_E)
  from co "2.prems"(2) have c0: "c0 = c" by simp
  have ce: "createElement tag d = Inr (el, d1)" using vt by (simp add: createElement_def el_def d1_def)
  have st: "same_tree d1 d2" using mp by (rule mount_props_same)
  have l2: "length (nodes d2) = Suc (length (nodes d))" using st by (simp add: same_tree_def d1_def)
  have el2: "el < length (nodes d2)" using l2 by (simp add: el_def)
  have g: "grown el d2 d3" by (rule "2.IH"[OF ce refl mp mc el2])
  have l3: "length (nodes d2) \<le> length (nodes d3)" using g by (simp add: grown_def)
  have below: "\<And>n. n < length (nodes d) \<Longrightarrow> n < length (nodes d2) \<and> n \<noteq> el"
    using l2 by (simp add: el_def)
  have ch: "\<And>q. q < length (nodes d) \<Longrightarrow> childNodes d3 q = childNodes d q"
    using g below st by (simp add: grown_def same_tree_def d1_def)
  have pa: "\<And>y. y < length (nodes d) \<Longrightarrow> parentNode d3 y = parentNode d y"
    using g below st by (simp add: grown_def same_tree_def d1_def)
  have tx: "\<And>n. n < length (nodes d) \<Longrightarrow> is_text d3 n = is_text d n \<and> tagOf d3 n = tagOf d n"
    using g below st by (simp add: grown_def same_tree_def d1_def)
  have pel: "parentNode d3 el = None"
    using g el2 st by (simp add: grown_def same_tree_def d1_def el_def parentNode_beyond)
  have tel: "tagOf d3 el = tag"
    using g el2 st by (simp add: grown_def same_tree_def d1_def el_def)
  from g obtain ops where tr: "trace d3 = trace d2 @ ops" by (auto simp: grown_def)
  have tr2: "trace d2 = trace d @ map (\<lambda>(k, x). apply_op el props k) props"
    using mount_props_trace[OF mp] by (simp add: d1_def)
  have el3: "el < length (nodes d3)" using el2 l3 by simp
  have c3: "c < length (nodes d3)" using "2.prems"(3) l2 l3 by simp
  have m: "mounted c d d'"
    unfolding mounted_def d' c0
    using ch pa tx pel tr tr2 el3 c3 l2 l3 below "2.prems"(3)
    by (auto simp: el_def[symmetric])
  show ?case using m v' tel by (simp add: d' el_def)
next
  case (3 el d)
  then show ?case by (simp add: grown_refl)
next
  case (4 s rest el d)
  define t where "t = length (nodes d)"
  define d1 where "d1 = appendChild el t (alloc (new_text s) d)"
  from "4.prems"(1) obtain rest' where mc: "mount_children rest el d1 = Inr (rest', d')"
    by (auto simp: createTextNode_def t_def d1_def split: sum.splits)
  have el1: "el < length (nodes d1)" using "4.prems"(2) by (simp add: d1_def)
  have g: "grown el d1 d'"
    by (rule "4.IH"[OF refl, of t "alloc (new_text s) d", OF _ mc[unfolded d1_def] el1[unfolded d1_def], folded d1_def])
       (simp add: createTextNode_def t_def)
  have g0: "grown el d d1"
    unfolding grown_def d1_def t_def
    by (auto simp: parentNode_beyond)
  from g0 g show ?case by (rule grown_trans)
next
  case (5 tag props children key el0 rest el d)
  from "5.prems"(1) obtain c1 d1 rest' where
    m1: "mount (VNode tag props children key el0) (Some el) d = Inr (c1, d1)"
    and mc: "mount_children rest el d1 = Inr (rest', d')"
    by (auto split: sum.splits)
  from "5.IH"(1)[OF m1 refl "5.prems"(2)] have md: "mounted el d d1" by simp
  then have l: "length (nodes d) < length (nodes d1)" by (simp add: mounted_def)
  have g0: "grown el d d1" using md by (simp add: mounted_def grown_def)
  have "grown el d1 d'"
    using "5.IH"(2)[OF m1 refl mc] "5.prems"(2) l by simp
  with g0 show ?case by (rule grown_trans)
qed

lemma mount_trace_props:
  assumes "mount (VNode tag props cs key e0) co d = Inr (v', d')"
  shows "\<exists>ops. trace d' = trace d @ map (\<lambda>(k, x). apply_op (length (nodes d)) props k) props @ ops"
proof -
  define el where "el = length (nodes d)"
  from assms obtain c d2 cs' d3 where
    mp: "mount_props el props props (alloc (new_element tag) d) = Inr d2"
    and mc: "mount_children cs el d2 = Inr (cs', d3)"
    and d': "d' = appendChild c el d3"
    unfolding el_def by (rule mount_VNode_E)
  have "length (nodes d2) = Suc (length (nodes d))"
    using mount_props_same[OF mp] by (simp add: same_tree_def)
  then have "el < length (nodes d2)" by (simp add: el_def)
  from mount_frame(2)[OF mc this] obtain ops where "trace d3 = trace d2 @ ops"
    by (auto simp: grown_def)
  then show ?thesis using mount_props_trace[OF mp] by (simp add: d' el_def)
qed

text \<open>Every child of the new descriptor, string or descriptor, becomes one child node.\<close>

lemma mount_children_kids:
  "mount_children cs el d = Inr (cs', d') \<Longrightarrow> el < length (nodes d) \<Longrightarrow>
   \<exists>new. childNodes d' el = childNodes d el @ new \<and> length new = length cs"
proof (induction cs arbitrary: d cs' d')
  case Nil
  then show ?case by simp
next
  case (Cons child rest)
  show ?case
  proof (cases child)
    case (VText s)
    define d1 where "d1 = appendChild el (length (nodes d)) (alloc (new_text s) d)"
    from Cons.prems(1) VText obtain rest' where mc: "mount_children rest el d1 = Inr (rest', d')"
      by (auto simp: createTextNode_def d1_def split: sum.splits)
    have el1: "el < length (nodes d1)" using Cons.prems(2) by (simp add: d1_def)
    have c1: "childNodes d1 el = childNodes d el @ [length (nodes d)]"
      using Cons.prems(2) by (simp add: d1_def parentNode_beyond)
    from Cons.IH[OF mc el1] obtain new where
      "childNodes d' el = childNodes d1 el @ new" "length new = length rest" by blast
    with c1 show ?thesis by (intro exI[of _ "length (nodes d) # new"]) simp
  next
    case (VNode tag props children key el0)
    from Cons.prems(1) VNode obtain c1 d1 rest' where
      m1: "mount (VNode tag props children key el0) (Some el) d = Inr (c1, d1)"
      and mc: "mount_children rest el d1 = Inr (rest', d')"
      by (auto split: sum.splits)
    from mount_frame(1)[OF m1 refl Cons.prems(2)] have md: "mounted el d d1" by simp
    then have el1: "el < length (nodes d1)" using Cons.prems(2) by (simp add: mounted_def)
    from md Cons.prems(2) have c1: "childNodes d1 el = childNodes d el @ [length (nodes d)]"
      by (simp add: mounted_def)
    from Cons.IH[OF mc el1] obtain new where
      "childNodes d' el = childNodes d1 el @ new" "length new = length rest" by blast
    with c1 VNode show ?thesis by (intro exI[of _ "length (nodes d) # new"]) simp
  qed
qed

lemma mount_kids:
  assumes "mount (VNode tag props cs key e0) (Some c) d = Inr (v', d')" and "c < length (nodes d)"
  shows "length (childNodes d' (length (nodes d))) = length cs"
proof -
  define el where "el = length (nodes d)"
  from assms(1) obtain c0 d2 cs' d3 where c0: "Some c = Some c0"
    and mp: "mount_props el props props (alloc (new_element tag) d) = Inr d2"
    and mc: "mount_children cs el d2 = Inr (cs', d3)"
    and d': "d' = appendChild c0 el d3"
    unfolding el_def by (rule mount_VNode_E)
  have st: "same_tree (alloc (new_element tag) d) d2" using mp by (rule mount_props_same)
  have l2: "length (nodes d2) = Suc (length (nodes d))" using st by (simp add: same_tree_def)
  then have el2: "el < length (nodes d2)" by (simp add: el_def)
  have e2: "childNodes d2 el = []" using st by (simp add: same_tree_def el_def childNodes_beyond)
  from mount_children_kids[OF mc el2] e2 obtain new where
    n: "childNodes d3 el = new" "length new = length cs" by auto
  from mount_frame(2)[OF mc el2] have g: "grown el d2 d3" .
  have "parentNode d3 el = None"
    using g el2 st by (simp add: grown_def same_tree_def el_def parentNode_beyond)
  moreover have "c \<noteq> el" using assms(2) by (simp add: el_def)
  ultimately have "childNodes d' el = childNodes d3 el" using c0 by (simp add: d')
  with n show ?thesis by (simp add: el_def)
qed

lemma linkedD: "linked d \<Longrightarrow> y \<in> set (childNodes d q) \<Longrightarrow> parentNode d y = Some q"
  by (simp add: linked_def)

lemma linked_valid: "linked d \<Longrightarrow> y \<in> set (childNodes d q) \<Longrightarrow> y < length (nodes d)"
  by (metis linkedD option.distinct(1) parentNode_beyond)

lemma childNodes_valid: "y \<in> set (childNodes d q) \<Longrightarrow> q < length (nodes d)"
  by (metis childNodes_beyond empty_iff list.set(1))

lemma set_insert_before [simp]: "set (insert_before x a xs) = insert x (set xs)"
proof -
  have "set (takeWhile (\<lambda>y. y \<noteq> a) xs) \<union> set (dropWhile (\<lambda>y. y \<noteq> a) xs) = set xs"
    by (metis set_append takeWhile_dropWhile_id)
  then show ?thesis by (auto simp: insert_before_def)
qed

lemma linked_root: "linked root_dom"
  by (simp add: linked_def)

lemma linked_alloc:
  "linked d \<Longrightarrow> linked (alloc (new_element tag) d)"
  "linked d \<Longrightarrow> linked (alloc (new_text s) d)"
  by (simp_all add: linked_def)

lemma linked_same_tree: "same_tree d d' \<Longrightarrow> linked d' = linked d"
  by (simp add: linked_def same_tree_def)

lemma linked_appendChild:
  assumes "linked d" and "x < length (nodes d)"
  shows "linked (appendChild p x d)"
  unfolding linked_def
proof (intro allI impI)
  fix q y
  assume m: "y \<in> set (childNodes (appendChild p x d) q)"
  show "parentNode (appendChild p x d) y = Some q"
  proof (cases "y = x")
    case True
    have "q = p"
    proof (rule ccontr)
      assume "q \<noteq> p"
      with m True have "x \<in> set (childNodes d q)" and "parentNode d x \<noteq> Some q"
        by (auto split: if_splits)
      with assms(1) show False by (simp add: linked_def)
    qed
    with True assms(2) show ?thesis by simp
  next
    case False
    with m have "y \<in> set (childNodes d q)" by (auto split: if_splits)
    with assms(1) False show ?thesis by (simp add: linked_def)
  qed
qed

lemma linked_do_insertBefore:
  assumes "linked d" and "x < length (nodes d)"
  shows "linked (do_insertBefore p x a d)"
  unfolding linked_def
proof (intro allI impI)
  fix q y
  assume m: "y \<in> set (childNodes (do_insertBefore p x a d) q)"
  show "parentNode (do_insertBefore p x a d) y = Some q"
  proof (cases "x = a")
    case True
    with m assms(1) show ?thesis by (simp add: linked_def)
  next
    case xa: False
    show ?thesis
    proof (cases "y = x")
      case True
      have "q = p"
      proof (rule ccontr)
        assume "q \<noteq> p"
        with m True xa have "x \<in> set (childNodes d q)" and "parentNode d x \<noteq> Some q"
          by (auto split: if_splits)
        with assms(1) show False by (simp add: linked_def)
      qed
      with True xa assms(2) show ?thesis by simp
    next
      case False
      with m xa have "y \<in> set (childNodes d q)" by (auto split: if_splits)
      with assms(1) False xa show ?thesis by (simp add: linked_def)
    qed
  qed
qed

lemma linked_do_removeChild:
  assumes "linked d" and "x \<in> set (childNodes d p)"
  shows "linked (do_removeChild p x d)"
  unfolding linked_def
proof (intro allI impI)
  fix q y
  assume m: "y \<in> set (childNodes (do_removeChild p x d) q)"
  have px: "parentNode d x = Some p" using assms by (simp add: linked_def)
  from m have yq: "y \<in> set (childNodes d q)" by (auto split: if_splits)
  have "y \<noteq> x"
  proof
    assume "y = x"
    with yq assms(1) px have "q = p" by (simp add: linked_def)
    with m \<open>y = x\<close> show False by simp
  qed
  with yq assms(1) show "parentNode (do_removeChild p x d) y = Some q"
    by (simp add: linked_def)
qed

lemma linked_set_textContent:
  assumes "linked d" and "t < length (nodes d)"
  shows "linked (set_textContent t s d)"
  unfolding linked_def
proof (intro allI impI)
  fix q y
  assume m: "y \<in> set (childNodes (set_textContent t s d) q)"
  show "parentNode (set_textContent t s d) y = Some q"
  proof (cases "is_text d t")
    case True
    with m assms show ?thesis by (simp add: linked_def)
  next
    case nt: False
    show ?thesis
    proof (cases "q = t")
      case True
      with m nt assms(2) have "s \<noteq> []" and "y = length (nodes d)"
        by (auto split: if_splits)
      with nt assms(2) True show ?thesis by simp
    next
      case False
      with m nt assms(2) have yq: "y \<in> set (childNodes d q)" by simp
      then have py: "parentNode d y = Some q" using assms(1) by (simp add: linked_def)
      have "y \<notin> set (childNodes d t)" using py False assms(1) by (auto simp: linked_def)
      moreover have "y \<noteq> length (nodes d)" using py by (auto simp: parentNode_beyond)
      ultimately show ?thesis using nt assms(2) py by simp
    qed
  qed
qed

lemma linked_mount:
  "mount v co d = Inr (v', d') \<Longrightarrow> linked d \<Longrightarrow> linked d'"
  "mount_children cs el d = Inr (cs', d') \<Longrightarrow> linked d \<Longrightarrow> linked d'"
proof (induction v co d and cs el d arbitrary: v' d' and cs' d'
       rule: mount_mount_children.induct)
  case (1 s container d)
  then show ?case by simp
next
  case (2 tag props children key el0 container d)
  define el where "el = length (nodes d)"
  define d1 where "d1 = alloc (new_element tag) d"
  from "2.prems"(1) obtain c0 d2 cs' d3 where vt: "valid_name tag"
    and mp: "mount_props el props props d1 = Inr d2"
    and mc: "mount_children children el d2 = Inr (cs', d3)"
    and d': "d' = appendChild c0 el d3"
    unfolding el_def d1_def by (rule mount_VNode_E)
  have ce: "createElement tag d = Inr (el, d1)" using vt by (simp add: createElement_def el_def d1_def)
  have st: "same_tree d1 d2" using mp by (rule mount_props_same)
  have l2: "linked d2" using "2.prems"(2) linked_same_tree[OF st] by (simp add: d1_def linked_alloc)
  have l3: "linked d3" by (rule "2.IH"[OF ce refl mp mc l2])
  have "el < length (nodes d2)" using st by (simp add: same_tree_def el_def d1_def)
  from mount_frame(2)[OF mc this] have "el < length (nodes d3)"
    using st by (simp add: grown_def same_tree_def d1_def el_def)
  with l3 show ?case unfolding d' by (rule linked_appendChild)
next
  case (3 el d)
  then show ?case by simp
next
  case (4 s rest el d)
  define d1 where "d1 = appendChild el (length (nodes d)) (alloc (new_text s) d)"
  from "4.prems"(1) obtain rest' where mc: "mount_children rest el d1 = Inr (rest', d')"
    by (auto simp: createTextNode_def d1_def split: sum.splits)
  have l1: "linked d1" unfolding d1_def
    by (rule linked_appendChild) (simp_all add: linked_alloc "4.prems"(2))
  show ?case
    by (rule "4.IH"[OF refl, of "length (nodes d)" "alloc (new_text s) d", OF _ mc[unfolded d1_def] l1[unfolded d1_def]])
       (simp add: createTextNode_def)
next
  case (5 tag props children key el0 rest el d)
  from "5.prems"(1) obtain c1 d1 rest' where
    m1: "mount (VNode tag props children key el0) (Some el) d = Inr (c1, d1)"
    and mc: "mount_children rest el d1 = Inr (rest', d')"
    by (auto split: sum.splits)
  from "5.IH"(1)[OF m1 "5.prems"(2)] have "linked d1" .
  from "5.IH"(2)[OF m1 refl mc this] show ?case .
qed

lemma patch_new_key_same:
  assumes "patch_new_key el old new k d = Inr d'"
  shows "same_tree d d'"
proof (cases "lookup old k = lookup new k")
  case True
  with assms show ?thesis by (simp add: patch_new_key_def same_tree_refl)
next
  case ne: False
  show ?thesis
  proof (cases el)
    case None
    with assms ne show ?thesis
      by (auto simp: patch_new_key_def Let_def split: if_splits sum.splits)
  next
    case (Some n)
    show ?thesis
    proof (cases "startsWith_on k")
      case False
      with assms ne Some show ?thesis
        by (auto simp: patch_new_key_def Let_def dest: attr_call_same)
    next
      case True
      show ?thesis
      proof (cases "truthy (lookup old k)")
        case False
        with assms ne Some True show ?thesis
          by (auto simp: patch_new_key_def Let_def dest: attr_call_same)
      next
        case t: True
        with assms ne Some True obtain d1 where
          "removeEventListener n (eventName k) (lookup old k) d = Inr d1"
          "addEventListener n (eventName k) (lookup new k) d1 = Inr d'"
          by (auto simp: patch_new_key_def Let_def split: sum.splits)
        then show ?thesis by (blast intro: same_tree_trans dest: attr_call_same)
      qed
    qed
  qed
qed

lemma patch_new_key_trace:
  assumes "patch_new_key (Some el) old new k d = Inr d'"
  shows "trace d' = trace d @ new_ops el old new k"
proof (cases "lookup old k = lookup new k")
  case True
  with assms show ?thesis by (simp add: patch_new_key_def new_ops_def)
next
  case ne: False
  show ?thesis
  proof (cases "startsWith_on k")
    case False
    with assms ne show ?thesis
      by (auto simp: patch_new_key_def Let_def new_ops_def apply_op_def dest: attr_call_trace)
  next
    case True
    show ?thesis
    proof (cases "truthy (lookup old k)")
      case False
      with assms ne True show ?thesis
        by (auto simp: patch_new_key_def Let_def new_ops_def apply_op_def dest: attr_call_trace)
    next
      case t: True
      with assms ne True obtain d1 where
        "removeEventListener el (eventName k) (lookup old k) d = Inr d1"
        "addEventListener el (eventName k) (lookup new k) d1 = Inr d'"
        by (auto simp: patch_new_key_def Let_def split: sum.splits)
      then have "trace d' = trace d @ [RemoveEventListener el (eventName k) (lookup old k),
          AddEventListener el (eventName k) (lookup new k)]"
        using attr_call_trace(3)[of el "eventName k" "lookup old k" d d1]
          attr_call_trace(2)[of el "eventName k" "lookup new k" d1 d'] by simp
      with ne True t show ?thesis by (simp add: new_ops_def apply_op_def remove_op_def)
    qed
  qed
qed

lemma patch_old_key_same:
  assumes "patch_old_key el old new k d = Inr d'"
  shows "same_tree d d'"
  using assms
  by (cases el)
     (auto simp: patch_old_key_def same_tree_refl same_tree_attr split: if_splits
           dest: attr_call_same)

lemma patch_old_key_trace:
  assumes "patch_old_key (Some el) old new k d = Inr d'"
  shows "trace d' = trace d @ old_ops el old new k"
  using assms
  by (auto simp: patch_old_key_def old_ops_def remove_op_def removeAttribute_def
           split: if_splits dest: attr_call_trace)

lemma patchProps_new_same:
  "patchProps_new el old new ps d = Inr d' \<Longrightarrow> same_tree d d'"
proof (induction el old new ps d arbitrary: d' rule: patchProps_new.induct)
  case (1 el oldProps newProps d)
  then show ?case by (simp add: same_tree_refl)
next
  case (2 el oldProps newProps k x rest d)
  from "2.prems" obtain d1 where s: "patch_new_key el oldProps newProps k d = Inr d1"
    and r: "patchProps_new el oldProps newProps rest d1 = Inr d'"
    by (auto split: sum.splits)
  from patch_new_key_same[OF s] "2.IH"[OF s r] show ?case by (rule same_tree_trans)
qed

lemma patchProps_old_same:
  "patchProps_old el old new ps d = Inr d' \<Longrightarrow> same_tree d d'"
proof (induction el old new ps d arbitrary: d' rule: patchProps_old.induct)
  case (1 el oldProps newProps d)
  then show ?case by (simp add: same_tree_refl)
next
  case (2 el oldProps newProps k x rest d)
  from "2.prems" obtain d1 where s: "patch_old_key el oldProps newProps k d = Inr d1"
    and r: "patchProps_old el oldProps newProps rest d1 = Inr d'"
    by (auto split: sum.splits)
  from patch_old_key_same[OF s] "2.IH"[OF s r] show ?case by (rule same_tree_trans)
qed

lemma patchProps_same: "patchProps el old new d = Inr d' \<Longrightarrow> same_tree d d'"
  by (auto simp: patchProps_def split: sum.splits
           intro: same_tree_trans dest: patchProps_new_same patchProps_old_same)

lemma patchProps_new_trace:
  "patchProps_new (Some el) old new ps d = Inr d' \<Longrightarrow>
   trace d' = trace d @ concat (map (\<lambda>(k, x). new_ops el old new k) ps)"
proof (induction "Some el" old new ps d arbitrary: d' rule: patchProps_new.induct)
  case (1 oldProps newProps d)
  then show ?case by simp
next
  case (2 oldProps newProps k x rest d)
  from "2.prems" obtain d1 where s: "patch_new_key (Some el) oldProps newProps k d = Inr d1"
    and r: "patchProps_new (Some el) oldProps newProps rest d1 = Inr d'"
    by (auto split: sum.splits)
  from patch_new_key_trace[OF s] "2.hyps"[OF s r] show ?case by simp
qed

lemma patchProps_old_trace:
  "patchProps_old (Some el) old new ps d = Inr d' \<Longrightarrow>
   trace d' = trace d @ concat (map (\<lambda>(k, x). old_ops el old new k) ps)"
proof (induction "Some el" old new ps d arbitrary: d' rule: patchProps_old.induct)
  case (1 oldProps newProps d)
  then show ?case by simp
next
  case (2 oldProps newProps k x rest d)
  from "2.prems" obtain d1 where s: "patch_old_key (Some el) oldProps newProps k d = Inr d1"
    and r: "patchProps_old (Some el) oldProps newProps rest d1 = Inr d'"
    by (auto split: sum.splits)
  from patch_old_key_trace[OF s] "2.hyps"[OF s r] show ?case by simp
qed

lemma patchProps_ops:
  assumes "patchProps (Some el) old new d = Inr d'"
  shows "drop (length (trace d)) (trace d') =
     concat (map (\<lambda>(k, x). new_ops el old new k) new)
     @ concat (map (\<lambda>(k, x). old_ops el old new k) old)"
proof -
  from assms obtain d1 where n: "patchProps_new (Some el) old new new d = Inr d1"
    and o: "patchProps_old (Some el) old new old d1 = Inr d'"
    by (auto simp: patchProps_def split: sum.splits)
  from patchProps_new_trace[OF n] patchProps_old_trace[OF o] show ?thesis by simp
qed

lemma in_concat_keys:
  "(k, v) \<in> set ps \<Longrightarrow> x \<in> set (f k) \<Longrightarrow> x \<in> set (concat (map (\<lambda>(k, y). f k) ps))"
  by (induction ps) auto





lemma lookup_defined:
  "lookup props k \<noteq> Undefined \<Longrightarrow> k \<notin> set object_prototype \<Longrightarrow> (k, lookup props k) \<in> set props"
  by (auto simp: lookup_def split: option.splits dest: map_of_SomeD)

text \<open>
  C10, as stated, fails for a descriptor that the backend cannot materialize: \<open>mount\<close>
  applies the attributes in order, and a listener attribute whose value is a string,
  placed before \<open>key\<close>, makes \<open>addEventListener\<close> raise before \<open>key\<close> is reached.
\<close>

theorem key_stays_attribute_counterexample:
  "h ''li'' [(''onClick'', Str ''notAFunction''), (''key'', Num 1)] NoChildren
     = VNode ''li'' [(''onClick'', Str ''notAFunction''), (''key'', Num 1)] [] (Num 1) None \<and>
   mount (h ''li'' [(''onClick'', Str ''notAFunction''), (''key'', Num 1)] NoChildren)
     (Some 0) root_dom = Inl TypeError"
  by (simp add: h_def lookup_def createElement_def startsWith_on_def addEventListener_def)

text \<open>
  C10, amended. \<open>h\<close> copies \<open>props.key\<close> into the \<open>key\<close> field and leaves \<open>props\<close> as
  it is. So for a descriptor built with a key \<open>k\<close>: every \<open>mount\<close> of it that succeeds
  has set the plain attribute \<open>key\<close> to \<open>k\<close> on the new node; \<open>mount\<close> succeeds when
  the descriptor is one the backend can materialize; and an attribute diff that succeeds
  has set \<open>key\<close> like any other attribute when it differs from the old one.
\<close>

theorem key_stays_attribute:
  assumes "lookup props ''key'' = k" and "k \<noteq> Undefined"
  shows "(\<exists>cs. h tag props children = VNode tag props cs k None) \<and>
         (\<forall>v' d'. mount (h tag props children) (Some c) d = Inr (v', d') \<longrightarrow>
             SetAttribute (length (nodes d)) ''key'' k
               \<in> set (drop (length (trace d)) (trace d'))) \<and>
         (mountable (h tag props children) \<longrightarrow>
             (\<exists>v' d'. mount (h tag props children) (Some c) d = Inr (v', d'))) \<and>
         (\<forall>d'. patchProps (Some el) old props d = Inr d' \<longrightarrow> lookup old ''key'' \<noteq> k \<longrightarrow>
             SetAttribute el ''key'' k \<in> set (drop (length (trace d)) (trace d')))"
proof (intro conjI allI impI)
  show "\<exists>cs. h tag props children = VNode tag props cs k None"
    using assms(1) by (simp add: h_def)
next
  fix v' d' assume m: "mount (h tag props children) (Some c) d = Inr (v', d')"
  have kv: "(''key'', k) \<in> set props"
    using lookup_defined[of props "''key''"] assms by simp
  have op: "apply_op (length (nodes d)) props ''key'' = SetAttribute (length (nodes d)) ''key'' k"
    using assms(1) by (simp add: apply_op_def startsWith_on_def)
  obtain cs where hh: "h tag props children = VNode tag props cs k None"
    using assms(1) by (simp add: h_def)
  from mount_trace_props[OF m[unfolded hh]] obtain ops where
    "trace d' = trace d @ map (\<lambda>(k, x). apply_op (length (nodes d)) props k) props @ ops" by blast
  moreover have "apply_op (length (nodes d)) props ''key''
      \<in> set (map (\<lambda>(k, x). apply_op (length (nodes d)) props k) props)"
    using kv by force
  ultimately show "SetAttribute (length (nodes d)) ''key'' k
      \<in> set (drop (length (trace d)) (trace d'))"
    using op by simp
next
  assume "mountable (h tag props children)"
  from mount_total(1)[OF this, of c d]
  show "\<exists>v' d'. mount (h tag props children) (Some c) d = Inr (v', d')" by auto
next
  fix d' assume p: "patchProps (Some el) old props d = Inr d'" and ne: "lookup old ''key'' \<noteq> k"
  have kv: "(''key'', k) \<in> set props"
    using lookup_defined[of props "''key''"] assms by simp
  have "apply_op el props ''key'' \<in> set (new_ops el old props ''key'')"
    using ne assms(1) by (simp add: new_ops_def)
  from in_concat_keys[where f="new_ops el old props", OF kv this]
  have "apply_op el props ''key'' \<in> set (drop (length (trace d)) (trace d'))"
    unfolding patchProps_ops[OF p] by simp
  then show "SetAttribute el ''key'' k \<in> set (drop (length (trace d)) (trace d'))"
    using assms(1) by (simp add: apply_op_def startsWith_on_def)
qed

theorem key_stays_attribute_witness:
  "h ''li'' [(''key'', Num 1)] (Single (VText ''A''))
     = VNode ''li'' [(''key'', Num 1)] [VText ''A''] (Num 1) None \<and>
   (\<exists>v' d'. mount (h ''li'' [(''key'', Num 1)] (Single (VText ''A''))) (Some 0) root_dom
               = Inr (v', d') \<and>
       SetAttribute 1 ''key'' (Num 1) \<in> set (drop (length (trace root_dom)) (trace d'))) \<and>
   (\<exists>d'. patchProps (Some 1) [(''key'', Num 2)] [(''key'', Num 1)] root_dom = Inr d' \<and>
       SetAttribute 1 ''key'' (Num 1) \<in> set (drop (length (trace root_dom)) (trace d')))"
proof -
  have a: "lookup [(''key'', Num 1)] ''key'' = Num 1" by (simp add: lookup_def)
  have b: "Num 1 \<noteq> Undefined" by simp
  have c: "lookup [(''key'', Num 2)] ''key'' \<noteq> Num 1" by (simp add: lookup_def)
  note t = key_stays_attribute[OF a b, of "''li''" "Single (VText ''A'')" 0 root_dom
      1 "[(''key'', Num 2)]"]
  have 1: "h ''li'' [(''key'', Num 1)] (Single (VText ''A''))
     = VNode ''li'' [(''key'', Num 1)] [VText ''A''] (Num 1) None"
    by (simp add: h_def lookup_def)
  have mo: "mountable (h ''li'' [(''key'', Num 1)] (Single (VText ''A'')))"
    by (simp add: 1 attr_ok_def startsWith_on_def)
  from t mo obtain v' d' where
    m: "mount (h ''li'' [(''key'', Num 1)] (Single (VText ''A''))) (Some 0) root_dom = Inr (v', d')"
    by blast
  from t m have "SetAttribute (length (nodes root_dom)) ''key'' (Num 1)
      \<in> set (drop (length (trace root_dom)) (trace d'))" by blast
  then have 2: "SetAttribute 1 ''key'' (Num 1) \<in> set (drop (length (trace root_dom)) (trace d'))"
    by (simp only: obs_root(1) One_nat_def)
  obtain d2 where p: "patchProps (Some 1) [(''key'', Num 2)] [(''key'', Num 1)] root_dom = Inr d2"
    by (simp add: patchProps_def patch_new_key_def patch_old_key_def lookup_def key_in_def
          startsWith_on_def setAttribute_def)
  from t p c have 3: "SetAttribute 1 ''key'' (Num 1)
      \<in> set (drop (length (trace root_dom)) (trace d2))" by blast
  show ?thesis using 1 m 2 p 3 by blast
qed

lemma next_in_split:
  "e \<notin> set xs \<Longrightarrow> next_in e (xs @ e # ys) = (case ys of [] \<Rightarrow> None | y # zs \<Rightarrow> Some y)"
proof (induction xs)
  case Nil
  then show ?case by (cases ys) simp_all
next
  case (Cons a xs)
  then show ?case by (cases xs) auto
qed

lemma insert_before_split:
  "a \<notin> set xs \<Longrightarrow> insert_before x a (xs @ a # ys) = xs @ x # a # ys"
  by (induction xs) (auto simp: insert_before_def)

text \<open>
  C6, as stated, fails for a new descriptor that the backend cannot materialize: the
  old node (node 3, the second child of node 1) is removed, then \<open>createElement\<close>
  raises for the kind \<open>a b\<close>, and the error leaves \<open>patch\<close>.
\<close>

theorem kind_mismatch_replaces_counterexample:
  "childNodes mixed_dom 1 = [2, 3, 5] \<and>
   removeChild 1 3 mixed_dom = Inr (do_removeChild 1 3 mixed_dom) \<and>
   patch (VNode ''span'' [] [VText ''x''] Undefined (Some 3))
         (VNode ''a b'' [] [VText ''x''] Undefined None) mixed_dom = Inl InvalidCharacterError"
  by (simp add: mixed_dom_def old_mixed_def eval_defs)

text \<open>
  C6, amended. Let the kinds differ and let the old node \<open>e\<close> stand among the children
  \<open>xs @ e # ys\<close> of its parent \<open>p\<close> in a consistent document. Then \<open>patch\<close> removes \<open>e\<close>
  from \<open>p\<close> and materializes the new descriptor with \<open>mount\<close>. If that fails, \<open>patch\<close>
  fails with the same error (the kind mismatch itself is no error). If it succeeds,
  \<open>patch\<close> succeeds, and its result is the result of \<open>mount\<close> with the new node put
  where \<open>e\<close> was: the new node did not exist before (its number is the old node count),
  has the new kind, one child per child of the descriptor and the descriptor's
  attributes applied, and stands before the former next sibling, or last when there was
  none. \<open>mount\<close> succeeds when the new descriptor is one the backend can materialize.
\<close>

theorem kind_mismatch_replaces:
  assumes "otag \<noteq> ntag" and "linked d" and "childNodes d p = xs @ e # ys"
      and "distinct (childNodes d p)"
  shows "removeChild p e d = Inr (do_removeChild p e d) \<and>
         (\<forall>err. mount (VNode ntag nprops ncs nkey nel) (Some p) (do_removeChild p e d) = Inl err \<longrightarrow>
            patch (VNode otag oprops ocs okey (Some e)) (VNode ntag nprops ncs nkey nel) d
              = Inl err) \<and>
         (\<forall>new' d2.
            mount (VNode ntag nprops ncs nkey nel) (Some p) (do_removeChild p e d) = Inr (new', d2) \<longrightarrow>
            patch (VNode otag oprops ocs okey (Some e)) (VNode ntag nprops ncs nkey nel) d
              = Inr (new', put_back p (length (nodes d)) ys d2) \<and>
            vel new' = Some (length (nodes d)) \<and>
            tagOf (put_back p (length (nodes d)) ys d2) (length (nodes d)) = ntag \<and>
            length (childNodes (put_back p (length (nodes d)) ys d2) (length (nodes d)))
              = length ncs \<and>
            (\<exists>ops. trace d2 = trace d @ RemoveChild p e
                       # map (\<lambda>(k, x). apply_op (length (nodes d)) nprops k) nprops @ ops) \<and>
            childNodes (put_back p (length (nodes d)) ys d2) p = xs @ length (nodes d) # ys \<and>
            parentNode (put_back p (length (nodes d)) ys d2) (length (nodes d)) = Some p \<and>
            parentNode (put_back p (length (nodes d)) ys d2) e = None) \<and>
         (mountable (VNode ntag nprops ncs nkey nel) \<longrightarrow>
            (\<exists>r. mount (VNode ntag nprops ncs nkey nel) (Some p) (do_removeChild p e d) = Inr r))"
proof -
  define n where "n = length (nodes d)"
  define new where "new = VNode ntag nprops ncs nkey nel"
  define old where "old = VNode otag oprops ocs okey (Some e)"
  have em: "e \<in> set (childNodes d p)" using assms(3) by simp
  have pe: "parentNode d e = Some p" using assms(2) em by (rule linkedD)
  have pv: "p < n" using em unfolding n_def by (rule childNodes_valid)
  have kv: "\<And>y. y \<in> set xs \<union> set ys \<Longrightarrow> y < n"
    using linked_valid[OF assms(2), of _ p] assms(3) by (auto simp: n_def)
  have exs: "e \<notin> set xs" "e \<notin> set ys" using assms(3,4) by auto
  have ev: "e < n" using linked_valid[OF assms(2) em] by (simp add: n_def)
  define d1 where "d1 = do_removeChild p e d"
  have r: "removeChild p e d = Inr d1" using em by (simp add: removeChild_def d1_def)
  have c1: "childNodes d1 p = xs @ ys" using assms(3) exs by (simp add: d1_def)
  have l1: "length (nodes d1) = n" by (simp add: d1_def n_def)
  have ns: "nextSibling d e = (case ys of [] \<Rightarrow> None | y # zs \<Rightarrow> Some y)"
    using pe assms(3) exs by (simp add: nextSibling_def next_in_split)
  have nxs: "n \<notin> set xs" "n \<notin> set ys" "n \<noteq> e" using kv ev by auto
  have fail: "patch old new d = Inl err" if "mount new (Some p) d1 = Inl err" for err
    using that assms(1) pe r by (simp add: old_def new_def)
  have ok: "patch old new d = Inr (new', put_back p n ys d2) \<and> vel new' = Some n \<and>
      tagOf (put_back p n ys d2) n = ntag \<and>
      length (childNodes (put_back p n ys d2) n) = length ncs \<and>
      (\<exists>ops. trace d2 = trace d @ RemoveChild p e # map (\<lambda>(k, x). apply_op n nprops k) nprops @ ops) \<and>
      childNodes (put_back p n ys d2) p = xs @ n # ys \<and>
      parentNode (put_back p n ys d2) n = Some p \<and> parentNode (put_back p n ys d2) e = None"
    if m: "mount new (Some p) d1 = Inr (new', d2)" for new' d2
  proof -
    from mount_frame(1)[OF m refl] pv l1 have ve: "vel new' = Some n" and md: "mounted p d1 d2"
      and tg: "tagOf d2 n = ntag" by (simp_all add: new_def)
    from md l1 pv c1 have c2: "childNodes d2 p = xs @ ys @ [n]"
      and pn: "parentNode d2 n = Some p" and l2: "n < length (nodes d2)"
      by (simp_all add: mounted_def)
    from md l1 ev have pe2: "parentNode d2 e = None" by (simp add: mounted_def d1_def)
    have p2: "p < length (nodes d2)" using pv l2 by simp
    from mount_kids[OF m[unfolded new_def]] pv l1 have k2: "length (childNodes d2 n) = length ncs"
      by simp
    from mount_trace_props[OF m[unfolded new_def]] l1 obtain ops where
      "trace d2 = trace d1 @ map (\<lambda>(k, x). apply_op n nprops k) nprops @ ops" by auto
    then have tr: "\<exists>ops. trace d2 = trace d @ RemoveChild p e
        # map (\<lambda>(k, x). apply_op n nprops k) nprops @ ops"
      by (simp add: d1_def)
    have np: "n \<noteq> p" using pv by simp
    show ?thesis
    proof (cases ys)
      case Nil
      have "patch old new d = Inr (new', put_back p n ys d2)"
        using assms(1) pe r m ve ns Nil by (simp add: old_def new_def put_back_def)
      moreover have "childNodes (put_back p n ys d2) p = xs @ n # ys"
        using c2 pn p2 nxs Nil by (simp add: put_back_def)
      moreover have "tagOf (put_back p n ys d2) n = ntag"
        "parentNode (put_back p n ys d2) n = Some p" "parentNode (put_back p n ys d2) e = None"
        using tg l2 pe2 nxs Nil by (simp_all add: put_back_def)
      moreover have "length (childNodes (put_back p n ys d2) n) = length ncs"
        using k2 pn np Nil by (simp add: put_back_def)
      ultimately show ?thesis using ve tr by simp
    next
      case (Cons y zs)
      have yn: "y \<noteq> n" using nxs(2) Cons by auto
      have yx: "y \<notin> set xs" using assms(3,4) Cons by auto
      have ib: "insertBefore p n y d2 = Inr (put_back p n ys d2)"
        using c2 Cons by (simp add: insertBefore_def put_back_def)
      have "patch old new d = Inr (new', put_back p n ys d2)"
        using assms(1) pe r m ve ns Cons ib by (simp add: old_def new_def)
      moreover have "childNodes (put_back p n ys d2) p = xs @ n # ys"
        using c2 pn p2 nxs yn yx Cons insert_before_split[of y xs n zs]
        by (simp add: put_back_def)
      moreover have "tagOf (put_back p n ys d2) n = ntag"
        "parentNode (put_back p n ys d2) n = Some p" "parentNode (put_back p n ys d2) e = None"
        using tg l2 pe2 nxs yn Cons by (simp_all add: put_back_def)
      moreover have "length (childNodes (put_back p n ys d2) n) = length ncs"
        using k2 pn np yn Cons by (simp add: put_back_def)
      ultimately show ?thesis using ve tr by simp
    qed
  qed
  have tot: "\<exists>r. mount new (Some p) d1 = Inr r" if "mountable new"
    using mount_total(1)[OF that] by blast
  show ?thesis
    using r fail ok tot unfolding n_def new_def old_def d1_def by blast
qed

theorem kind_mismatch_replaces_witness:
  "childNodes mixed_dom 1 = [2, 3, 5] \<and>
   (\<exists>new' d'. patch (VNode ''span'' [] [VText ''x''] Undefined (Some 3))
                  (VNode ''div'' [] [VText ''x''] Undefined None) mixed_dom = Inr (new', d') \<and>
       vel new' = Some 6 \<and> tagOf d' 6 = ''div'' \<and> length (childNodes d' 6) = 1 \<and>
       childNodes d' 1 = [2, 6, 5] \<and> parentNode d' 6 = Some 1 \<and> parentNode d' 3 = None)"
proof -
  have mo: "mountable old_mixed" by (simp add: old_mixed_def h_def)
  obtain v d where m: "mount old_mixed (Some 0) root_dom = Inr (v, d)"
    using mount_total(1)[OF mo, of 0 root_dom] by auto
  then have md: "mixed_dom = d" by (simp add: mixed_dom_def)
  have lk: "linked mixed_dom" unfolding md by (rule linked_mount(1)[OF m linked_root])
  have ch: "childNodes mixed_dom 1 = [2] @ 3 # [5]"
    by (simp add: mixed_dom_def old_mixed_def eval_defs)
  have di: "distinct (childNodes mixed_dom 1)" by (subst ch) simp
  have ln: "length (nodes mixed_dom) = 6"
    by (simp add: mixed_dom_def old_mixed_def eval_defs)
  have ne: "''span'' \<noteq> ''div''" by simp
  have mn: "mountable (VNode ''div'' [] [VText ''x''] Undefined None)" by simp
  note t = kind_mismatch_replaces[OF ne lk ch di, of "[]" "[VText ''x'']" Undefined None "[]"
      "[VText ''x'']" Undefined]
  from t mn obtain new' d2 where
    m2: "mount (VNode ''div'' [] [VText ''x''] Undefined None) (Some 1)
           (do_removeChild 1 3 mixed_dom) = Inr (new', d2)" by fastforce
  from t m2 ch show ?thesis unfolding ln by auto
qed

end
